theory Spec2Isabelle
  imports Main "HOL-Library.Word"
begin

unbundle bit_operations_syntax

section \<open>The data model of \<^verbatim>\<open>mem\<close>\<close>

text \<open>
  The repository holds two variants of one program: \<^verbatim>\<open>src/mem.c\<close> (widths only, page
  size \<^verbatim>\<open>#define PAGESIZE 4096\<close>) and \<^verbatim>\<open>src/unnamed/part_000\<close> (widths and byte
  swapping, page size from \<^verbatim>\<open>getpagesize()\<close>). Both are embedded by the same
  definitions, which take the variant as their first argument and differ exactly where
  the two sources differ.
\<close>

type_synonym u64 = "64 word"

datatype variant = Basic | Extended

text \<open>\<^verbatim>\<open>enum { READ, WRITE, AND, OR, XOR }\<close>; the last three carry a suffix because
  the bare names are taken by the bit operations.\<close>

datatype operator = READ | WRITE | AND_op | OR_op | XOR_op

text \<open>
  The anonymous struct of \<^verbatim>\<open>main\<close>. The struct of \<^verbatim>\<open>mem.c\<close> has no field
  \<^verbatim>\<open>swap\<close>; in the \<open>Basic\<close> variant the field stays 0 and is never read.
\<close>

record op =
  operator :: operator
  width :: int
  swap :: int
  address :: u64
  data :: u64

text \<open>An element of \<^verbatim>\<open>OP[MAXOPS] = {0}\<close>: all fields zero, and \<^verbatim>\<open>READ\<close> is 0.\<close>

definition zero_op :: op where
  "zero_op = \<lparr>operator = READ, width = 0, swap = 0, address = 0, data = 0\<rparr>"

definition MAXOPS :: nat where
  "MAXOPS = 256"

text \<open>
  Every call of \<^verbatim>\<open>die\<close> is an error value; the constructor says which message goes to
  standard error. \<open>Usage\<close> is the usage text, \<open>Invalid arg\<close> is
  \<^verbatim>\<open>'%s' is invalid\<close> with the token, \<open>TooManyOperations\<close> is
  \<^verbatim>\<open>Too many operations\<close>, \<open>CantOpen\<close> is \<^verbatim>\<open>Can't open /dev/mem\<close>, and
  \<open>CantMap a\<close> is \<^verbatim>\<open>Can't map address 0x%lX\<close> with the address of the operation.
  \<open>OutOfBounds\<close> is no message of the program: it marks a store to \<^verbatim>\<open>OP[ops]\<close> with
  \<^verbatim>\<open>ops\<close> beyond the array, which is undefined in C.
\<close>

datatype error =
  Usage
| Invalid string
| TooManyOperations
| CantOpen
| CantMap u64
| OutOfBounds

section \<open>The C library's \<^verbatim>\<open>strtoull\<close> with base 0\<close>

text \<open>
  \<^verbatim>\<open>strtoull(nptr, &endptr, 0)\<close> is not code of the repository; it is modelled after
  ISO C (7.22.1.4): white space is skipped, an optional sign is read, a prefix
  \<^verbatim>\<open>0x\<close>/\<^verbatim>\<open>0X\<close> selects base 16, a leading \<^verbatim>\<open>0\<close> base 8, anything else base 10; the
  longest run of digits of that base is converted. A value beyond 64 bits gives
  \<^verbatim>\<open>ULLONG_MAX\<close>; otherwise a minus sign negates the value in the unsigned type. When no
  digit is found the result is 0 and \<^verbatim>\<open>endptr = nptr\<close>, except that in \<^verbatim>\<open>0x\<close> without
  a hexadecimal digit the \<^verbatim>\<open>0\<close> alone is converted and \<^verbatim>\<open>endptr\<close> is at the \<^verbatim>\<open>x\<close>.
  A C string is its characters before the terminating NUL, so \<open>[]\<close> is the position of
  the NUL and a token holds no NUL character.
\<close>

definition isspace :: "char \<Rightarrow> bool" where
  "isspace c \<longleftrightarrow> c = CHR '' '' \<or> (9 \<le> (of_char c :: nat) \<and> (of_char c :: nat) \<le> 13)"

definition digit_value :: "char \<Rightarrow> nat option" where
  "digit_value c =
     (let k = (of_char c :: nat) in
      if 48 \<le> k \<and> k \<le> 57 then Some (k - 48)
      else if 97 \<le> k \<and> k \<le> 122 then Some (k - 87)
      else if 65 \<le> k \<and> k \<le> 90 then Some (k - 55)
      else None)"

fun scan_digits :: "nat \<Rightarrow> nat \<Rightarrow> string \<Rightarrow> nat \<times> string" where
  "scan_digits base acc [] = (acc, [])"
| "scan_digits base acc (c # cs) =
     (case digit_value c of
        None \<Rightarrow> (acc, c # cs)
      | Some d \<Rightarrow> if d < base then scan_digits base (acc * base + d) cs else (acc, c # cs))"

definition ULLONG_MAX :: nat where
  "ULLONG_MAX = 2 ^ 64 - 1"

text \<open>The conversion proper, on the text \<open>s1\<close> after white space and sign.\<close>

definition convert :: "string \<Rightarrow> bool \<Rightarrow> string \<Rightarrow> u64 \<times> string" where
  "convert nptr neg s1 =
     (let hex = (case s1 of z # x # _ \<Rightarrow> z = CHR ''0'' \<and> (x = CHR ''x'' \<or> x = CHR ''X'')
                 | _ \<Rightarrow> False);
          octal = (case s1 of [] \<Rightarrow> False | z # _ \<Rightarrow> z = CHR ''0'');
          base = (if hex then 16 else if octal then 8 else 10);
          s2 = (if hex then drop 2 s1 else s1);
          (n, endptr) = scan_digits base 0 s2
      in if length endptr = length s2 then (0, if hex then drop 1 s1 else nptr)
         else (if ULLONG_MAX < n then word_of_nat ULLONG_MAX
               else if neg then - word_of_nat n else word_of_nat n, endptr))"

definition strtoull :: "string \<Rightarrow> u64 \<times> string" where
  "strtoull nptr =
     (let s = dropWhile isspace nptr;
          neg = (case s of [] \<Rightarrow> False | c # _ \<Rightarrow> c = CHR ''-'');
          s1 = (case s of [] \<Rightarrow> s | c # t \<Rightarrow> if c = CHR ''-'' \<or> c = CHR ''+'' then t else s)
      in convert nptr neg s1)"

section \<open>The parser: the first loop of \<^verbatim>\<open>main\<close>\<close>

text \<open>
  \<^verbatim>\<open>switch (*arg)\<close>: only the first character of the token is inspected. The result
  is the new \<^verbatim>\<open>width\<close> and \<^verbatim>\<open>swap\<close>; \<open>None\<close> means that no case matched and the
  token goes on to be parsed as an operation. \<^verbatim>\<open>mem.c\<close> has the four lower-case cases
  only.
\<close>

definition mode_char :: "variant \<Rightarrow> char \<Rightarrow> (int \<times> int) option" where
  "mode_char v c =
     (if c = CHR ''b'' then Some (8, 0)
      else if c = CHR ''h'' then Some (16, 0)
      else if c = CHR ''w'' then Some (32, 0)
      else if c = CHR ''d'' then Some (64, 0)
      else if v = Extended \<and> c = CHR ''H'' then Some (16, 1)
      else if v = Extended \<and> c = CHR ''W'' then Some (32, 1)
      else if v = Extended \<and> c = CHR ''D'' then Some (64, 1)
      else None)"

definition mode :: "variant \<Rightarrow> string \<Rightarrow> (int \<times> int) option" where
  "mode v arg = (case arg of [] \<Rightarrow> None | c # _ \<Rightarrow> mode_char v c)"

text \<open>
  \<^verbatim>\<open>switch (*p++)\<close> on a position that is not the end of the token: the operator and
  the position of the value, or \<open>None\<close> for \<^verbatim>\<open>goto choke\<close>.
\<close>

definition expect_eq :: "operator \<Rightarrow> string \<Rightarrow> (operator \<times> string) option" where
  "expect_eq f p = (case p of [] \<Rightarrow> None | e # p' \<Rightarrow> if e = CHR ''='' then Some (f, p') else None)"

definition operator_at :: "char \<Rightarrow> string \<Rightarrow> (operator \<times> string) option" where
  "operator_at c p =
     (if c = CHR ''&'' then expect_eq AND_op p
      else if c = CHR ''^'' then expect_eq XOR_op p
      else if c = CHR ''|'' then expect_eq OR_op p
      else if c = CHR ''='' then Some (WRITE, p)
      else None)"

section \<open>Bytes, byte order and \<^verbatim>\<open>byteswap.h\<close>\<close>

text \<open>
  Physical memory is a map from addresses to bytes. A value of a C unsigned type is laid
  out in the machine's native order, taken to be little-endian here: the byte at the lowest
  address is the least significant. \<^verbatim>\<open>bswap_16\<close>, \<^verbatim>\<open>bswap_32\<close> and \<^verbatim>\<open>bswap_64\<close> of
  the C library reverse the bytes of a value of their own width.
\<close>

fun to_bytes :: "nat \<Rightarrow> 'a::len word \<Rightarrow> 8 word list" where
  "to_bytes 0 x = []"
| "to_bytes (Suc n) x = ucast x # to_bytes n (drop_bit 8 x)"

fun from_bytes :: "8 word list \<Rightarrow> 'a::len word" where
  "from_bytes [] = 0"
| "from_bytes (b # bs) = ucast b OR push_bit 8 (from_bytes bs)"

definition bswap :: "'a::len word \<Rightarrow> 'a word" where
  "bswap x = from_bytes (rev (to_bytes (LENGTH('a) div 8) x))"

fun write_bytes :: "(u64 \<Rightarrow> 8 word) \<Rightarrow> u64 \<Rightarrow> 8 word list \<Rightarrow> (u64 \<Rightarrow> 8 word)" where
  "write_bytes m a [] = m"
| "write_bytes m a (b # bs) = write_bytes (m(a := b)) (a + 1) bs"

text \<open>\<^verbatim>\<open>*(T *) address\<close> as an rvalue and as the target of an assignment, for an
  unsigned type \<^verbatim>\<open>T\<close> of \<open>LENGTH('a)\<close> bits.\<close>

definition load :: "(u64 \<Rightarrow> 8 word) \<Rightarrow> u64 \<Rightarrow> 'a::len word" where
  "load m a = from_bytes (map (\<lambda>i. m (a + word_of_nat i)) [0..<LENGTH('a) div 8])"

definition store :: "(u64 \<Rightarrow> 8 word) \<Rightarrow> u64 \<Rightarrow> 'a::len word \<Rightarrow> (u64 \<Rightarrow> 8 word)" where
  "store m a x = write_bytes m a (to_bytes (LENGTH('a) div 8) x)"

text \<open>
  The right-hand side of \<^verbatim>\<open>*(T *) address &= OP[op].data\<close> and its siblings: the old
  value is converted to \<^verbatim>\<open>uint64_t\<close>, combined with the data, and converted back to
  \<^verbatim>\<open>T\<close> by the assignment.
\<close>

definition compound :: "(u64 \<Rightarrow> u64 \<Rightarrow> u64) \<Rightarrow> 'a::len word \<Rightarrow> u64 \<Rightarrow> 'a word" where
  "compound f old d = ucast (f (ucast old) d)"

text \<open>
  The block \<^verbatim>\<open>if (swap) switch(width) {...}\<close> of the extended parser. The argument of
  \<^verbatim>\<open>bswap_16\<close> is converted to 16 bits and its result back to 64, and likewise for 32.
\<close>

definition swap_data :: "int \<Rightarrow> int \<Rightarrow> u64 \<Rightarrow> u64" where
  "swap_data sw w d =
     (if sw \<noteq> 0 then
        (if w = 16 then ucast (bswap (ucast d :: 16 word))
         else if w = 32 then ucast (bswap (ucast d :: 32 word))
         else if w = 64 then bswap d
         else d)
      else d)"

subsection \<open>One operation token\<close>

text \<open>
  The body of the loop from \<^verbatim>\<open>OP[ops].width = width\<close> to the label \<^verbatim>\<open>next\<close>, on the
  array element \<open>slot\<close>; \<open>None\<close> is \<^verbatim>\<open>goto choke\<close>. \<^verbatim>\<open>p == arg\<close> compares
  positions in one token, which the equality of the remaining characters decides.
\<close>

definition parse_arg :: "variant \<Rightarrow> int \<Rightarrow> int \<Rightarrow> op \<Rightarrow> string \<Rightarrow> op option" where
  "parse_arg v w sw slot arg =
     (let (a, p) = strtoull arg;
          slot' = slot\<lparr>width := w, swap := sw, address := a\<rparr>
      in if p = arg then None
         else (case p of
                 [] \<Rightarrow> Some (slot'\<lparr>operator := READ\<rparr>)
               | c # p1 \<Rightarrow>
                   (case operator_at c p1 of
                      None \<Rightarrow> None
                    | Some (f, p2) \<Rightarrow>
                        if p2 = [] then None
                        else (let (d, p3) = strtoull p2
                              in if p3 \<noteq> [] then None
                                 else Some (slot'\<lparr>operator := f,
                                   data := (if v = Extended then swap_data sw w d else d)\<rparr>)))))"

subsection \<open>The loop over the arguments\<close>

text \<open>
  The state of the loop is the current \<^verbatim>\<open>width\<close> and \<^verbatim>\<open>swap\<close>, the array \<^verbatim>\<open>OP\<close>
  and the count \<^verbatim>\<open>ops\<close>. The arguments are those after the program name.
\<close>

fun parse_loop ::
  "variant \<Rightarrow> int \<Rightarrow> int \<Rightarrow> op list \<Rightarrow> nat \<Rightarrow> string list \<Rightarrow> error + (op list \<times> nat)" where
  "parse_loop v w sw OP ops [] = Inr (OP, ops)"
| "parse_loop v w sw OP ops (arg # args) =
     (case mode v arg of
        Some (w', sw') \<Rightarrow> parse_loop v w' sw' OP ops args
      | None \<Rightarrow>
          if ops = MAXOPS then Inl TooManyOperations
          else if length OP \<le> ops then Inl OutOfBounds
          else (case parse_arg v w sw (OP ! ops) arg of
                  None \<Rightarrow> Inl (Invalid arg)
                | Some slot \<Rightarrow> parse_loop v w sw (OP[ops := slot]) (Suc ops) args))"

definition parse :: "variant \<Rightarrow> string list \<Rightarrow> error + (op list \<times> nat)" where
  "parse v args = parse_loop v 32 0 (replicate MAXOPS zero_op) 0 args"

section \<open>The executor: the second loop of \<^verbatim>\<open>main\<close>\<close>

text \<open>
  What the program can observe of its environment: the result of \<^verbatim>\<open>getpagesize()\<close>,
  whether \<^verbatim>\<open>open\<close> of the device succeeds, and whether \<^verbatim>\<open>mmap\<close> of a given offset
  and size succeeds. What it can change: the physical memory, standard output, and the
  system calls it has made.
\<close>

record env =
  getpagesize :: int
  open_ok :: bool
  mmap_ok :: "u64 \<Rightarrow> int \<Rightarrow> bool"

datatype event = Open | Mmap u64 int | Munmap int

record world =
  mem :: "u64 \<Rightarrow> 8 word"
  stdout :: string
  events :: "event list"

subsection \<open>\<^verbatim>\<open>printf\<close> with \<^verbatim>\<open>%.NX\<close>\<close>

text \<open>
  The conversion \<^verbatim>\<open>%.NX\<close> prints the upper-case hexadecimal digits of the value, with
  zeros in front up to \<open>N\<close> digits. The formats of the program are \<^verbatim>\<open>0x\<close>, the
  conversion, and a newline.
\<close>

definition hex_digit :: "nat \<Rightarrow> char" where
  "hex_digit d = ''0123456789ABCDEF'' ! d"

fun hex_digits :: "nat \<Rightarrow> string" where
  "hex_digits n = (if n = 0 then [] else hex_digits (n div 16) @ [hex_digit (n mod 16)])"

declare hex_digits.simps [simp del]

definition printf_X :: "nat \<Rightarrow> nat \<Rightarrow> string" where
  "printf_X prec n = replicate (prec - length (hex_digits n)) CHR ''0'' @ hex_digits n"

definition print_hex :: "nat \<Rightarrow> nat \<Rightarrow> string" where
  "print_hex prec n = ''0x'' @ printf_X prec n @ [CHR 0x0A]"

subsection \<open>The mapping\<close>

text \<open>
  The conversions between \<^verbatim>\<open>uint64_t\<close> and \<^verbatim>\<open>int\<close>: to \<^verbatim>\<open>int\<close> the low 32 bits are
  read as two's complement, to \<^verbatim>\<open>uint64_t\<close> the value is taken modulo \<open>2 ^ 64\<close>.
  Arithmetic in \<^verbatim>\<open>int\<close> is written on \<open>int\<close>; the theorem on the mapped region
  below shows that it stays in range.
\<close>

definition int_of_u64 :: "u64 \<Rightarrow> int" where
  "int_of_u64 x = sint (ucast x :: 32 word)"

definition u64_of_int :: "int \<Rightarrow> u64" where
  "u64_of_int i = word_of_int i"

text \<open>\<^verbatim>\<open>#define PAGESIZE 4096\<close> in \<^verbatim>\<open>mem.c\<close>, \<^verbatim>\<open>int pagesize = getpagesize()\<close> in
  the extended variant.\<close>

definition page_size :: "variant \<Rightarrow> env \<Rightarrow> int" where
  "page_size v e = (case v of Basic \<Rightarrow> 4096 | Extended \<Rightarrow> getpagesize e)"

definition map_offset :: "variant \<Rightarrow> env \<Rightarrow> op \<Rightarrow> int" where
  "map_offset v e x = int_of_u64 (address x mod u64_of_int (page_size v e))"

definition map_size :: "variant \<Rightarrow> env \<Rightarrow> op \<Rightarrow> int" where
  "map_size v e x =
     (if map_offset v e x + width x div 8 > page_size v e then 2 * page_size v e
      else page_size v e)"

definition map_base :: "variant \<Rightarrow> env \<Rightarrow> op \<Rightarrow> u64" where
  "map_base v e x = address x - u64_of_int (map_offset v e x)"

subsection \<open>The access\<close>

text \<open>
  \<^verbatim>\<open>switch(OP[op].operator)\<close> with its inner \<^verbatim>\<open>switch(OP[op].width)\<close>, at the physical
  address \<open>a\<close> that lies behind \<^verbatim>\<open>map + offset\<close>. A width outside the four cases
  does nothing. Only the extended variant looks at \<^verbatim>\<open>OP[op].swap\<close>.
\<close>

definition access :: "variant \<Rightarrow> op \<Rightarrow> u64 \<Rightarrow> world \<Rightarrow> world" where
  "access v x a wd =
     (let m = mem wd; sw = (v = Extended \<and> swap x \<noteq> 0) in
      case operator x of
        READ \<Rightarrow>
          (if width x = 8 then
             wd\<lparr>stdout := stdout wd @ print_hex 2 (unat (load m a :: 8 word))\<rparr>
           else if width x = 16 then
             (let d = (load m a :: 16 word); d = (if sw then bswap d else d)
              in wd\<lparr>stdout := stdout wd @ print_hex 4 (unat d)\<rparr>)
           else if width x = 32 then
             (let d = (load m a :: 32 word); d = (if sw then bswap d else d)
              in wd\<lparr>stdout := stdout wd @ print_hex 8 (unat d)\<rparr>)
           else if width x = 64 then
             (let d = (load m a :: 64 word); d = (if sw then bswap d else d)
              in wd\<lparr>stdout := stdout wd @ print_hex 16 (unat d)\<rparr>)
           else wd)
      | WRITE \<Rightarrow>
          (if width x = 8 then wd\<lparr>mem := store m a (ucast (data x) :: 8 word)\<rparr>
           else if width x = 16 then wd\<lparr>mem := store m a (ucast (data x) :: 16 word)\<rparr>
           else if width x = 32 then wd\<lparr>mem := store m a (ucast (data x) :: 32 word)\<rparr>
           else if width x = 64 then wd\<lparr>mem := store m a (ucast (data x) :: 64 word)\<rparr>
           else wd)
      | AND_op \<Rightarrow>
          (if width x = 8 then
             wd\<lparr>mem := store m a (compound (AND) (load m a :: 8 word) (data x))\<rparr>
           else if width x = 16 then
             wd\<lparr>mem := store m a (compound (AND) (load m a :: 16 word) (data x))\<rparr>
           else if width x = 32 then
             wd\<lparr>mem := store m a (compound (AND) (load m a :: 32 word) (data x))\<rparr>
           else if width x = 64 then
             wd\<lparr>mem := store m a (compound (AND) (load m a :: 64 word) (data x))\<rparr>
           else wd)
      | OR_op \<Rightarrow>
          (if width x = 8 then
             wd\<lparr>mem := store m a (compound (OR) (load m a :: 8 word) (data x))\<rparr>
           else if width x = 16 then
             wd\<lparr>mem := store m a (compound (OR) (load m a :: 16 word) (data x))\<rparr>
           else if width x = 32 then
             wd\<lparr>mem := store m a (compound (OR) (load m a :: 32 word) (data x))\<rparr>
           else if width x = 64 then
             wd\<lparr>mem := store m a (compound (OR) (load m a :: 64 word) (data x))\<rparr>
           else wd)
      | XOR_op \<Rightarrow>
          (if width x = 8 then
             wd\<lparr>mem := store m a (compound (XOR) (load m a :: 8 word) (data x))\<rparr>
           else if width x = 16 then
             wd\<lparr>mem := store m a (compound (XOR) (load m a :: 16 word) (data x))\<rparr>
           else if width x = 32 then
             wd\<lparr>mem := store m a (compound (XOR) (load m a :: 32 word) (data x))\<rparr>
           else if width x = 64 then
             wd\<lparr>mem := store m a (compound (XOR) (load m a :: 64 word) (data x))\<rparr>
           else wd))"

subsection \<open>One operation, all operations, and \<^verbatim>\<open>main\<close>\<close>

text \<open>
  A run ends with an error value (exit status 1) or with \<open>Inr ()\<close> (exit status 0); the
  world is returned in both cases, since what was written before \<^verbatim>\<open>die\<close> stays written.
\<close>

definition perform_op :: "variant \<Rightarrow> env \<Rightarrow> op \<Rightarrow> world \<Rightarrow> (error + unit) \<times> world" where
  "perform_op v e x wd =
     (let offset = map_offset v e x;
          size = map_size v e x;
          base = map_base v e x;
          wd1 = wd\<lparr>events := events wd @ [Mmap base size]\<rparr>
      in if \<not> mmap_ok e base size then (Inl (CantMap (address x)), wd1)
         else (let wd2 = access v x (base + u64_of_int offset) wd1
               in (Inr (), wd2\<lparr>events := events wd2 @ [Munmap size]\<rparr>)))"

fun perform :: "variant \<Rightarrow> env \<Rightarrow> op list \<Rightarrow> world \<Rightarrow> (error + unit) \<times> world" where
  "perform v e [] wd = (Inr (), wd)"
| "perform v e (x # xs) wd =
     (case perform_op v e x wd of
        (Inl err, wd') \<Rightarrow> (Inl err, wd')
      | (Inr u, wd') \<Rightarrow> perform v e xs wd')"

definition main :: "variant \<Rightarrow> env \<Rightarrow> string list \<Rightarrow> world \<Rightarrow> (error + unit) \<times> world" where
  "main v e args wd =
     (case parse v args of
        Inl err \<Rightarrow> (Inl err, wd)
      | Inr (OP, ops) \<Rightarrow>
          if ops = 0 then (Inl Usage, wd)
          else (let wd1 = wd\<lparr>events := events wd @ [Open]\<rparr>
                in if \<not> open_ok e then (Inl CantOpen, wd1)
                   else perform v e (take ops OP) wd1))"

definition exit_status :: "(error + unit) \<times> world \<Rightarrow> int" where
  "exit_status r = (case fst r of Inl _ \<Rightarrow> 1 | Inr _ \<Rightarrow> 0)"

section \<open>Notions of the specification\<close>

text \<open>
  The definitions of this section are not translated from the sources. They say in the
  words of the specification what the theorems below compare the program with.
\<close>

text \<open>The unsigned value of the \<open>n\<close> bytes at address \<open>a\<close>.\<close>

definition peek :: "(u64 \<Rightarrow> 8 word) \<Rightarrow> u64 \<Rightarrow> nat \<Rightarrow> u64" where
  "peek m a n = from_bytes (map (\<lambda>i. m (a + word_of_nat i)) [0..<n])"

text \<open>The low \<open>n\<close> bytes of a value in reversed order.\<close>

definition byte_reverse :: "nat \<Rightarrow> u64 \<Rightarrow> u64" where
  "byte_reverse n y = from_bytes (rev (to_bytes n y))"

text \<open>The value truncated to \<open>w\<close> bits, as \<open>value mod 2 ^ w\<close>.\<close>

definition trunc_bits :: "int \<Rightarrow> u64 \<Rightarrow> u64" where
  "trunc_bits w d = word_of_nat (unat d mod 2 ^ nat w)"

text \<open>What each kind of operation leaves in memory, from the old content and the value.\<close>

definition apply_operator :: "operator \<Rightarrow> u64 \<Rightarrow> u64 \<Rightarrow> u64" where
  "apply_operator f old d =
     (case f of READ \<Rightarrow> old | WRITE \<Rightarrow> d | AND_op \<Rightarrow> old AND d | OR_op \<Rightarrow> old OR d
      | XOR_op \<Rightarrow> old XOR d)"

text \<open>The value a Read shows: the bytes at the address in native order, or in reversed
  order when the operation is swapped.\<close>

definition read_value :: "variant \<Rightarrow> op \<Rightarrow> (u64 \<Rightarrow> 8 word) \<Rightarrow> nat" where
  "read_value v x m =
     (let bs = map (\<lambda>i. m (address x + word_of_nat i)) [0..<nat (width x div 8)]
      in unat (from_bytes (if v = Extended \<and> swap x \<noteq> 0 then rev bs else bs) :: u64))"

text \<open>What an operation adds to standard output when the memory is \<open>m\<close>: a Read one
  line with its value, any other operation nothing.\<close>

definition emitted :: "variant \<Rightarrow> op \<Rightarrow> (u64 \<Rightarrow> 8 word) \<Rightarrow> string" where
  "emitted v x m =
     (if operator x = READ then print_hex (nat (width x div 4)) (read_value v x m) else [])"

text \<open>The number that a string of hexadecimal digits denotes.\<close>

definition hex_value :: "string \<Rightarrow> nat" where
  "hex_value ds = foldl (\<lambda>acc c. acc * 16 + (case digit_value c of None \<Rightarrow> 0 | Some d \<Rightarrow> d)) 0 ds"

text \<open>The decimal numeral of a number, as a user types it.\<close>

definition dec_digit :: "nat \<Rightarrow> char" where
  "dec_digit d = ''0123456789'' ! d"

fun dec :: "nat \<Rightarrow> string" where
  "dec n = (if n < 10 then [dec_digit n] else dec (n div 10) @ [dec_digit (n mod 10)])"

declare dec.simps [simp del]

text \<open>
  The tokens of an argument vector that are operations and not mode tokens, and the mode
  that the tokens \<open>pre\<close> leave in effect: that of the last mode token among them, or
  width 32 unswapped when there is none.
\<close>

definition op_tokens :: "variant \<Rightarrow> string list \<Rightarrow> string list" where
  "op_tokens v args = filter (\<lambda>t. mode v t = None) args"

definition current_mode :: "variant \<Rightarrow> string list \<Rightarrow> int \<times> int" where
  "current_mode v pre =
     (case rev (filter (\<lambda>t. mode v t \<noteq> None) pre) of
        [] \<Rightarrow> (32, 0)
      | t # _ \<Rightarrow> (case mode v t of None \<Rightarrow> (32, 0) | Some m \<Rightarrow> m))"

text \<open>The mode that the parser holds after the tokens \<open>pre\<close>, started in mode \<open>m\<close>.\<close>

definition mode_after :: "variant \<Rightarrow> int \<times> int \<Rightarrow> string list \<Rightarrow> int \<times> int" where
  "mode_after v m pre = foldl (\<lambda>m t. case mode v t of None \<Rightarrow> m | Some m' \<Rightarrow> m') m pre"

text \<open>
  The loop of the parser as a function on lists: the operations come out in order instead
  of going into an array, and \<open>cap\<close> is the number of free elements. The lemma
  \<open>parse_loop_list\<close> shows that the array loop computes the same.
\<close>

fun parse_list :: "variant \<Rightarrow> int \<Rightarrow> int \<Rightarrow> nat \<Rightarrow> string list \<Rightarrow> error + op list" where
  "parse_list v w sw cap [] = Inr []"
| "parse_list v w sw cap (arg # args) =
     (case mode v arg of
        Some (w', sw') \<Rightarrow> parse_list v w' sw' cap args
      | None \<Rightarrow>
          if cap = 0 then Inl TooManyOperations
          else (case parse_arg v w sw zero_op arg of
                  None \<Rightarrow> Inl (Invalid arg)
                | Some x \<Rightarrow>
                    (case parse_list v w sw (cap - 1) args of
                       Inl err \<Rightarrow> Inl err
                     | Inr xs \<Rightarrow> Inr (x # xs))))"

text \<open>A token on which the parser stops: \<^verbatim>\<open>switch (*arg)\<close> matches no case and the
  body of the loop ends in \<^verbatim>\<open>choke\<close>.\<close>

definition rejected :: "variant \<Rightarrow> string \<Rightarrow> bool" where
  "rejected v t \<longleftrightarrow> mode v t = None \<and> parse_arg v 32 0 zero_op t = None"

text \<open>
  The mode characters of the specification with the width and the swap flag each one
  sets; the upper-case ones exist in the extended variant only. A mode token in the sense
  of the specification is exactly one mode character. The program looks at less: whether
  a token begins with a mode character.
\<close>

definition mode_characters :: "variant \<Rightarrow> (char \<times> int \<times> int) list" where
  "mode_characters v =
     [(CHR ''b'', 8, 0), (CHR ''h'', 16, 0), (CHR ''w'', 32, 0), (CHR ''d'', 64, 0)]
     @ (if v = Extended then [(CHR ''H'', 16, 1), (CHR ''W'', 32, 1), (CHR ''D'', 64, 1)] else [])"

definition single_mode_token :: "variant \<Rightarrow> string \<Rightarrow> bool" where
  "single_mode_token v t \<longleftrightarrow>
     (case t of [c] \<Rightarrow> c \<in> fst ` set (mode_characters v) | _ \<Rightarrow> False)"

definition begins_with_mode_character :: "variant \<Rightarrow> string \<Rightarrow> bool" where
  "begins_with_mode_character v t \<longleftrightarrow>
     (case t of [] \<Rightarrow> False | c # _ \<Rightarrow> c \<in> fst ` set (mode_characters v))"

definition operation_tokens :: "variant \<Rightarrow> string list \<Rightarrow> string list" where
  "operation_tokens v args = filter (\<lambda>t. \<not> begins_with_mode_character v t) args"

text \<open>
  The operation tokens of the specification: an address, then nothing (Read), or one of
  \<^verbatim>\<open>=\<close> (Write), \<^verbatim>\<open>&=\<close> (And), \<^verbatim>\<open>^=\<close> (Xor), \<^verbatim>\<open>|=\<close> (Or) and a value. Address and
  value are numeric literals as \<^verbatim>\<open>strtoull\<close> reads them; a literal must consume at least
  one character, and nothing may follow the value. The result is the kind, the address
  and the value when there is one.
\<close>

definition numeric_literal :: "string \<Rightarrow> (u64 \<times> string) option" where
  "numeric_literal s =
     (case strtoull s of (n, rest) \<Rightarrow> if length rest < length s then Some (n, rest) else None)"

definition operator_suffix :: "string \<Rightarrow> (operator \<times> string) option" where
  "operator_suffix s =
     (if take 1 s = ''='' then Some (WRITE, drop 1 s)
      else if take 2 s = ''&='' then Some (AND_op, drop 2 s)
      else if take 2 s = ''^='' then Some (XOR_op, drop 2 s)
      else if take 2 s = ''|='' then Some (OR_op, drop 2 s)
      else None)"

definition operation_of_token :: "string \<Rightarrow> (operator \<times> u64 \<times> u64 option) option" where
  "operation_of_token t =
     (case numeric_literal t of
        None \<Rightarrow> None
      | Some (a, s) \<Rightarrow>
          if s = [] then Some (READ, a, None)
          else (case operator_suffix s of
                  None \<Rightarrow> None
                | Some (f, val) \<Rightarrow>
                    (case numeric_literal val of
                       None \<Rightarrow> None
                     | Some (d, rest) \<Rightarrow> if rest = [] then Some (f, a, Some d) else None)))"

definition well_formed_operation :: "string \<Rightarrow> bool" where
  "well_formed_operation t \<longleftrightarrow> operation_of_token t \<noteq> None"

text \<open>An invalid token as the program sees it: it does not begin with a mode character
  and is no well-formed operation token.\<close>

definition invalid_token :: "variant \<Rightarrow> string \<Rightarrow> bool" where
  "invalid_token v t \<longleftrightarrow> \<not> begins_with_mode_character v t \<and> \<not> well_formed_operation t"

text \<open>The bytes of physical memory that an access of \<open>n\<close> bytes at address \<open>a\<close>
  touches.\<close>

definition touched :: "u64 \<Rightarrow> nat \<Rightarrow> u64 set" where
  "touched a n = (\<lambda>i. a + word_of_nat i) ` {0..<n}"

text \<open>
  An environment and a world to run examples in: pages of 4096 bytes (or of \<open>ps\<close> bytes),
  a device that opens, every mapping granted, memory all zero, nothing printed yet.
\<close>

definition all_mapped :: "u64 \<Rightarrow> int \<Rightarrow> bool" where
  "all_mapped base sz = True"

definition env_of_page_size :: "int \<Rightarrow> env" where
  "env_of_page_size ps = \<lparr>getpagesize = ps, open_ok = True, mmap_ok = all_mapped\<rparr>"

definition zero_mem :: "u64 \<Rightarrow> 8 word" where
  "zero_mem a = 0"

definition world_zero :: world where
  "world_zero = \<lparr>mem = zero_mem, stdout = [], events = []\<rparr>"

text \<open>The page sizes that \<^verbatim>\<open>getpagesize()\<close> can return: at least one access wide, and
  small enough for \<^verbatim>\<open>2*pagesize\<close> to be an \<^verbatim>\<open>int\<close>.\<close>

definition page_size_ok :: "int \<Rightarrow> bool" where
  "page_size_ok ps \<longleftrightarrow> 8 \<le> ps \<and> ps < 2 ^ 30"

section \<open>Bytes and memory\<close>

lemma length_to_bytes: "length (to_bytes n x) = n"
  by (induction n arbitrary: x) auto

lemma from_to_bytes:
  "(from_bytes (to_bytes n (x::'a::len word)) :: 'b::len word) = ucast (take_bit (8 * n) x)"
proof (induction n arbitrary: x)
  case 0
  show ?case by simp
next
  case (Suc n)
  show ?case
    apply (simp add: Suc)
    apply (rule bit_word_eqI)
    apply (auto simp add: bit_simps)
    done
qed

lemma to_bytes_take_bit:
  "8 * n \<le> k \<Longrightarrow> to_bytes n (take_bit k x) = to_bytes n x"
proof (induction n arbitrary: x k)
  case 0
  show ?case by simp
next
  case (Suc n)
  have a: "(ucast (take_bit k x) :: 8 word) = ucast x"
    using Suc.prems by (intro bit_word_eqI) (auto simp add: bit_simps)
  have b: "drop_bit 8 (take_bit k x) = take_bit (k - 8) (drop_bit 8 x)"
    using Suc.prems by (intro bit_word_eqI) (auto simp add: bit_simps)
  show ?case using Suc.prems by (simp add: a b Suc.IH)
qed

lemma to_from_bytes:
  "8 * length bs \<le> LENGTH('a) \<Longrightarrow> to_bytes (length bs) (from_bytes bs :: 'a::len word) = bs"
proof (induction bs)
  case Nil
  show ?case by simp
next
  case (Cons b bs)
  let ?r = "from_bytes bs :: 'a word"
  have a: "(ucast (ucast b OR push_bit 8 ?r) :: 8 word) = b"
    using Cons.prems by (intro bit_word_eqI) (auto simp add: bit_simps)
  have b: "drop_bit 8 (ucast b OR push_bit 8 ?r) = take_bit (LENGTH('a) - 8) ?r"
    using Cons.prems by (intro bit_word_eqI) (auto simp add: bit_simps dest: bit_imp_le_length)
  have c: "to_bytes (length bs) (take_bit (LENGTH('a) - 8) ?r) = to_bytes (length bs) ?r"
    using Cons.prems by (intro to_bytes_take_bit) simp
  have "to_bytes (length bs) ?r = bs"
    using Cons by simp
  then show ?case
    by (simp only: list.size from_bytes.simps to_bytes.simps a b c add_Suc_right Nat.add_0_right)
qed

lemma from_bytes_small:
  assumes "8 * length bs \<le> LENGTH('a)"
  shows "take_bit (8 * length bs) (from_bytes bs :: 'a::len word) = from_bytes bs"
proof -
  have "(from_bytes (to_bytes (length bs) (from_bytes bs :: 'a word)) :: 'a word)
        = ucast (take_bit (8 * length bs) (from_bytes bs :: 'a word))"
    by (rule from_to_bytes)
  then show ?thesis using assms by (simp add: to_from_bytes)
qed

lemma from_bytes_ucast:
  assumes "8 * length bs \<le> LENGTH('b)"
  shows "(from_bytes bs :: 'a::len word) = ucast (from_bytes bs :: 'b::len word)"
proof -
  have "(from_bytes (to_bytes (length bs) (from_bytes bs :: 'b word)) :: 'a word)
        = ucast (take_bit (8 * length bs) (from_bytes bs :: 'b word))"
    by (rule from_to_bytes)
  then show ?thesis using assms by (simp add: to_from_bytes from_bytes_small)
qed

lemma bswap_from_bytes:
  assumes "8 * length bs = LENGTH('a)"
  shows "bswap (from_bytes bs :: 'a::len word) = from_bytes (rev bs)"
proof -
  have "LENGTH('a) div 8 = length bs" using assms by presburger
  then show ?thesis using assms by (simp add: bswap_def to_from_bytes)
qed

lemma to_bytes_bswap:
  assumes "8 dvd LENGTH('a)"
  shows "to_bytes (LENGTH('a) div 8) (bswap (x :: 'a::len word)) = rev (to_bytes (LENGTH('a) div 8) x)"
proof -
  let ?n = "LENGTH('a) div 8"
  have "to_bytes (length (rev (to_bytes ?n x))) (from_bytes (rev (to_bytes ?n x)) :: 'a word)
        = rev (to_bytes ?n x)"
    using assms by (intro to_from_bytes) (simp add: length_to_bytes)
  then show ?thesis by (simp add: bswap_def length_to_bytes)
qed

lemma bswap_bswap:
  assumes "8 dvd LENGTH('a)"
  shows "bswap (bswap (x :: 'a::len word)) = x"
proof -
  have "bswap (bswap x) = from_bytes (rev (to_bytes (LENGTH('a) div 8) (bswap x)))"
    by (simp add: bswap_def)
  also have "\<dots> = from_bytes (to_bytes (LENGTH('a) div 8) x)"
    using assms by (simp add: to_bytes_bswap)
  also have "\<dots> = x"
    using assms by (simp add: from_to_bytes)
  finally show ?thesis .
qed

lemma write_bytes_other:
  "(\<forall>j<length bs. c \<noteq> a + word_of_nat j) \<Longrightarrow> write_bytes m a bs c = m c"
proof (induction bs arbitrary: m a)
  case Nil
  show ?case by simp
next
  case (Cons b bs)
  have "\<forall>j<length bs. c \<noteq> (a + 1) + word_of_nat j"
  proof (intro allI impI)
    fix j assume "j < length bs"
    then have "c \<noteq> a + word_of_nat (Suc j)" using Cons.prems by auto
    then show "c \<noteq> (a + 1) + word_of_nat j" by (simp add: algebra_simps)
  qed
  then have "write_bytes (m(a := b)) (a + 1) bs c = (m(a := b)) c"
    by (rule Cons.IH)
  moreover have "c \<noteq> a" using Cons.prems by fastforce
  ultimately show ?case by simp
qed

lemma word_of_nat_neq_0:
  "0 < k \<Longrightarrow> k < 2 ^ 64 \<Longrightarrow> (word_of_nat k :: u64) \<noteq> 0"
  by (simp add: word_of_nat_eq_0_iff) (meson nat_dvd_not_less)

lemma write_bytes_nth:
  "length bs \<le> 2 ^ 64 \<Longrightarrow> i < length bs \<Longrightarrow> write_bytes m a bs (a + word_of_nat i) = bs ! i"
proof (induction bs arbitrary: m a i)
  case Nil
  then show ?case by simp
next
  case (Cons b bs)
  show ?case
  proof (cases i)
    case 0
    have "\<forall>j<length bs. a \<noteq> (a + 1) + word_of_nat j"
    proof (intro allI impI)
      fix j assume "j < length bs"
      then have "(word_of_nat (Suc j) :: u64) \<noteq> 0"
        using Cons.prems by (intro word_of_nat_neq_0) auto
      then show "a \<noteq> (a + 1) + word_of_nat j" by (simp add: algebra_simps)
    qed
    then have "write_bytes (m(a := b)) (a + 1) bs a = (m(a := b)) a"
      by (rule write_bytes_other)
    then show ?thesis using 0 by simp
  next
    case (Suc i')
    have "write_bytes (m(a := b)) (a + 1) bs ((a + 1) + word_of_nat i') = bs ! i'"
      using Cons.prems Suc by (intro Cons.IH) auto
    then show ?thesis using Suc by (simp add: algebra_simps)
  qed
qed

lemma read_back:
  assumes "n \<le> 2 ^ 64"
  shows "map (\<lambda>i. write_bytes m a (to_bytes n x) (a + word_of_nat i)) [0..<n] = to_bytes n x"
proof -
  have "map (\<lambda>i. write_bytes m a (to_bytes n x) (a + word_of_nat i)) [0..<n]
        = map (\<lambda>i. to_bytes n x ! i) [0..<n]"
    using assms by (intro map_cong refl write_bytes_nth) (simp_all add: length_to_bytes)
  also have "\<dots> = to_bytes n x"
    using map_nth [of "to_bytes n x"] by (simp add: length_to_bytes)
  finally show ?thesis .
qed

lemma peek_store:
  assumes "8 dvd LENGTH('a)" "LENGTH('a) \<le> 64"
  shows "peek (store m a (x :: 'a::len word)) a (LENGTH('a) div 8) = ucast x"
proof -
  have "LENGTH('a) div 8 \<le> 2 ^ 64" using assms by simp
  then show ?thesis using assms(1)
    by (simp add: peek_def store_def read_back from_to_bytes)
qed

lemma load_store:
  assumes "8 dvd LENGTH('a)" "LENGTH('a) \<le> 64"
  shows "load (store m a (x :: 'a::len word)) a = x"
proof -
  have "LENGTH('a) div 8 \<le> 2 ^ 64" using assms by simp
  then show ?thesis using assms(1)
    by (simp add: load_def store_def read_back from_to_bytes)
qed

lemma ucast_load:
  assumes "8 dvd LENGTH('a)" "LENGTH('a) \<le> 64"
  shows "(ucast (load m a :: 'a::len word) :: u64) = peek m a (LENGTH('a) div 8)"
proof -
  have "(from_bytes (map (\<lambda>i. m (a + word_of_nat i)) [0..<LENGTH('a) div 8]) :: u64)
        = ucast (from_bytes (map (\<lambda>i. m (a + word_of_nat i)) [0..<LENGTH('a) div 8]) :: 'a word)"
    using assms by (intro from_bytes_ucast) simp
  then show ?thesis by (simp add: peek_def load_def)
qed

lemma store_other:
  "(\<forall>j<LENGTH('a) div 8. c \<noteq> a + word_of_nat j) \<Longrightarrow> store m a (x :: 'a::len word) c = m c"
  by (simp add: store_def write_bytes_other length_to_bytes)

section \<open>The value that reaches memory\<close>

lemma trunc_bits_take_bit: "0 \<le> w \<Longrightarrow> trunc_bits w d = take_bit (nat w) d"
  by (simp add: trunc_bits_def of_nat_take_bit flip: take_bit_eq_mod)

lemma peek_small: "n \<le> 8 \<Longrightarrow> take_bit (8 * n) (peek m a n) = peek m a n"
  using from_bytes_small [of "map (\<lambda>i. m (a + word_of_nat i)) [0..<n]", where 'a = 64]
  by (simp add: peek_def)

lemma to_bytes_ucast:
  "8 * n \<le> LENGTH('a) \<Longrightarrow> to_bytes n (ucast (x :: 'b::len word) :: 'a::len word) = to_bytes n x"
proof (induction n arbitrary: x)
  case 0
  show ?case by simp
next
  case (Suc n)
  have a: "(ucast (ucast x :: 'a word) :: 8 word) = ucast x"
    using Suc.prems by (intro bit_word_eqI) (auto simp add: bit_simps)
  have b: "to_bytes n (drop_bit 8 (ucast x :: 'a word)) = to_bytes n (drop_bit 8 x)"
  proof -
    have "drop_bit 8 (ucast x :: 'a word) = take_bit (LENGTH('a) - 8) (ucast (drop_bit 8 x))"
      using Suc.prems by (intro bit_word_eqI) (auto simp add: bit_simps)
    moreover have "to_bytes n (take_bit (LENGTH('a) - 8) (ucast (drop_bit 8 x) :: 'a word))
                   = to_bytes n (ucast (drop_bit 8 x) :: 'a word)"
      using Suc.prems by (intro to_bytes_take_bit) simp
    moreover have "to_bytes n (ucast (drop_bit 8 x) :: 'a word) = to_bytes n (drop_bit 8 x)"
      using Suc.prems by (intro Suc.IH) simp
    ultimately show ?thesis by simp
  qed
  show ?case by (simp only: to_bytes.simps a b)
qed

lemma ucast_bswap:
  assumes "8 dvd LENGTH('a)" "LENGTH('a) \<le> 64"
  shows "(ucast (bswap (ucast d :: 'a::len word)) :: u64)
         = byte_reverse (LENGTH('a) div 8) (take_bit LENGTH('a) d)"
proof -
  let ?n = "LENGTH('a) div 8"
  have n: "8 * ?n = LENGTH('a)" using assms by simp
  have "to_bytes ?n (ucast d :: 'a word) = to_bytes ?n d"
    using n by (intro to_bytes_ucast) simp
  moreover have "to_bytes ?n (take_bit LENGTH('a) d) = to_bytes ?n d"
    using n by (intro to_bytes_take_bit) simp
  moreover have "(from_bytes (rev (to_bytes ?n d)) :: u64)
                 = ucast (from_bytes (rev (to_bytes ?n d)) :: 'a word)"
    using n by (intro from_bytes_ucast) (simp add: length_to_bytes)
  ultimately show ?thesis by (simp add: bswap_def byte_reverse_def)
qed

lemma byte_reverse_1: "byte_reverse (Suc 0) (take_bit 8 d) = take_bit 8 d"
  by (simp add: byte_reverse_def) (intro bit_word_eqI, auto simp add: bit_simps)

lemma take_bit_swap_data:
  assumes "w \<in> {8, 16, 32, 64}" "sw \<noteq> 0"
  shows "take_bit (nat w) (swap_data sw w d) = byte_reverse (nat (w div 8)) (trunc_bits w d)"
proof -
  have t: "trunc_bits w d = take_bit (nat w) d"
    using assms by (intro trunc_bits_take_bit) auto
  consider "w = 8" | "w = 16" | "w = 32" | "w = 64" using assms by auto
  then show ?thesis
  proof cases
    case 1
    then show ?thesis unfolding t using assms by (simp add: swap_data_def byte_reverse_1)
  next
    case 2
    have "(ucast (bswap (ucast d :: 16 word)) :: u64) = byte_reverse 2 (take_bit 16 d)"
      using ucast_bswap [where 'a = 16, of d] by simp
    moreover have "take_bit 16 (ucast (bswap (ucast d :: 16 word)) :: u64) = ucast (bswap (ucast d :: 16 word))"
      by (intro bit_word_eqI) (auto simp add: bit_simps dest: bit_imp_le_length)
    ultimately show ?thesis unfolding t using 2 assms by (simp add: swap_data_def)
  next
    case 3
    have "(ucast (bswap (ucast d :: 32 word)) :: u64) = byte_reverse 4 (take_bit 32 d)"
      using ucast_bswap [where 'a = 32, of d] by simp
    moreover have "take_bit 32 (ucast (bswap (ucast d :: 32 word)) :: u64) = ucast (bswap (ucast d :: 32 word))"
      by (intro bit_word_eqI) (auto simp add: bit_simps dest: bit_imp_le_length)
    ultimately show ?thesis unfolding t using 3 assms by (simp add: swap_data_def)
  next
    case 4
    have "(ucast (bswap (ucast d :: 64 word)) :: u64) = byte_reverse 8 (take_bit 64 d)"
      using ucast_bswap [where 'a = 64, of d] by simp
    moreover have "take_bit 64 y = y" for y :: u64
      by (intro take_bit_word_eq_self) simp
    ultimately show ?thesis unfolding t using 4 assms by (simp add: swap_data_def)
  qed
qed

lemma peek_store_ucast:
  assumes "8 dvd LENGTH('a)" "LENGTH('a) \<le> 64"
  shows "peek (store m a (ucast (d :: u64) :: 'a::len word)) a (LENGTH('a) div 8) = take_bit LENGTH('a) d"
  using assms by (simp add: peek_store) (intro bit_word_eqI, auto simp add: bit_simps)

lemma peek_store_compound:
  assumes "8 dvd LENGTH('a)" "LENGTH('a) \<le> 64"
  shows "peek (store m a (compound f (load m a :: 'a::len word) d)) a (LENGTH('a) div 8)
         = take_bit LENGTH('a) (f (peek m a (LENGTH('a) div 8)) d)"
  using assms by (simp add: compound_def peek_store_ucast ucast_load)

lemma take_bit_operator:
  assumes "take_bit n old = old" "f \<noteq> READ"
  shows "take_bit n (case f of READ \<Rightarrow> old | WRITE \<Rightarrow> d | AND_op \<Rightarrow> old AND d | OR_op \<Rightarrow> old OR d
      | XOR_op \<Rightarrow> old XOR d) = apply_operator f old (take_bit n (d :: u64))"
  using assms by (cases f) (simp_all add: apply_operator_def)

lemmas peek_store_ucast_8 = peek_store_ucast [where 'a = 8, simplified]
lemmas peek_store_ucast_16 = peek_store_ucast [where 'a = 16, simplified]
lemmas peek_store_ucast_32 = peek_store_ucast [where 'a = 32, simplified]
lemmas peek_store_ucast_64 = peek_store_ucast [where 'a = 64, simplified]
lemmas peek_store_compound_8 = peek_store_compound [where 'a = 8, simplified]
lemmas peek_store_compound_16 = peek_store_compound [where 'a = 16, simplified]
lemmas peek_store_compound_32 = peek_store_compound [where 'a = 32, simplified]
lemmas peek_store_compound_64 = peek_store_compound [where 'a = 64, simplified]

lemmas load_64 = ucast_load [where 'a = 64, simplified]
lemmas ucast_load_8 = ucast_load [where 'a = 8, simplified]
lemmas ucast_load_16 = ucast_load [where 'a = 16, simplified]
lemmas ucast_load_32 = ucast_load [where 'a = 32, simplified]

lemma peek_access:
  assumes "width x \<in> {8, 16, 32, 64}" "operator x \<noteq> READ"
  shows "peek (mem (access v x a wd)) a (nat (width x div 8))
         = apply_operator (operator x) (peek (mem wd) a (nat (width x div 8)))
             (take_bit (nat (width x)) (data x))"
proof -
  let ?old = "peek (mem wd) a (nat (width x div 8))"
  have small: "take_bit (nat (width x)) ?old = ?old"
    using assms(1) peek_small [of "nat (width x div 8)" "mem wd" a] by auto
  have "peek (mem (access v x a wd)) a (nat (width x div 8))
        = take_bit (nat (width x)) (case operator x of READ \<Rightarrow> ?old | WRITE \<Rightarrow> data x
            | AND_op \<Rightarrow> ?old AND data x | OR_op \<Rightarrow> ?old OR data x | XOR_op \<Rightarrow> ?old XOR data x)"
    using assms
    by (cases "operator x")
       (auto simp add: access_def Let_def peek_store_ucast_8 peek_store_ucast_16 peek_store_ucast_32
          peek_store_ucast_64 peek_store_compound_8 peek_store_compound_16
          peek_store_compound_32 peek_store_compound_64 compound_def load_64
          ucast_load_8 ucast_load_16 ucast_load_32)
  also have "\<dots> = apply_operator (operator x) ?old (take_bit (nat (width x)) (data x))"
    using small assms(2) by (rule take_bit_operator)
  finally show ?thesis .
qed

lemma unat_trunc_bits: "unat (trunc_bits w d) = unat d mod 2 ^ nat w"
proof -
  have "unat d mod 2 ^ nat w \<le> unat d" by simp
  also have "unat d < 2 ^ 64" using unsigned_less [of d] by simp
  finally show ?thesis by (simp add: trunc_bits_def unat_of_nat)
qed

section \<open>The mapped region\<close>

lemma map_offset_eq:
  assumes "0 < page_size v e" "page_size v e < 2 ^ 31"
  shows "map_offset v e x = uint (address x) mod page_size v e"
proof -
  let ?ps = "page_size v e"
  have ps: "uint (word_of_int ?ps :: u64) = ?ps"
    using assms by (simp add: uint_word_of_int)
  have m: "uint (address x mod word_of_int ?ps) = uint (address x) mod ?ps"
    by (simp add: uint_mod_distrib ps)
  have lo: "0 \<le> uint (address x) mod ?ps" and hi: "uint (address x) mod ?ps < ?ps"
    using assms by simp_all
  have hi31: "uint (address x) mod ?ps < 2 ^ 31"
    using hi assms(2) by (rule less_trans)
  have hi32: "uint (address x) mod ?ps < 2 ^ 32"
    using hi31 by (rule less_trans) simp
  have lo31: "- (2 ^ 31) \<le> uint (address x) mod ?ps"
    using lo by (rule order_trans [rotated]) simp
  have tb: "take_bit 32 (uint (address x) mod ?ps) = uint (address x) mod ?ps"
    using lo hi32 by (rule take_bit_int_eq_self)
  have stb: "signed_take_bit 31 (uint (address x) mod ?ps) = uint (address x) mod ?ps"
    using lo31 hi31 by (rule signed_take_bit_int_eq_self)
  have "sint (ucast (address x mod word_of_int ?ps) :: 32 word) = uint (address x) mod ?ps"
  proof -
    have "uint (ucast (address x mod word_of_int ?ps) :: 32 word) = uint (address x) mod ?ps"
      by (simp add: unsigned_ucast_eq m tb)
    moreover have "sint (ucast (address x mod word_of_int ?ps) :: 32 word)
          = signed_take_bit 31 (uint (ucast (address x mod word_of_int ?ps) :: 32 word))"
      by (simp add: sint_uint)
    ultimately show ?thesis
      by (simp add: stb)
  qed
  then show ?thesis by (simp add: map_offset_def int_of_u64_def u64_of_int_def)
qed

lemma page_size_bounds:
  assumes "v = Extended \<longrightarrow> page_size_ok (getpagesize e)"
  shows "8 \<le> page_size v e" "page_size v e < 2 ^ 30"
  using assms by (cases v; simp add: page_size_def page_size_ok_def)+

lemma map_base_offset: "map_base v e x + u64_of_int (map_offset v e x) = address x"
  by (simp add: map_base_def)

lemma map_region:
  assumes "v = Extended \<longrightarrow> page_size_ok (getpagesize e)"
      and "width x \<in> {8, 16, 32, 64}"
  shows "map_offset v e x = uint (address x) mod page_size v e
       \<and> uint (map_base v e x) = uint (address x) - map_offset v e x
       \<and> map_size v e x = (if map_offset v e x + width x div 8 > page_size v e
                           then 2 * page_size v e else page_size v e)
       \<and> 0 \<le> map_offset v e x
       \<and> map_offset v e x + width x div 8 \<le> map_size v e x
       \<and> map_size v e x < 2 ^ 31"
proof -
  let ?ps = "page_size v e"
  have ps: "8 \<le> ?ps" "?ps < 2 ^ 30" using assms(1) by (rule page_size_bounds)+
  have off: "map_offset v e x = uint (address x) mod ?ps"
    using ps by (intro map_offset_eq) auto
  have lo: "0 \<le> map_offset v e x" and hi: "map_offset v e x < ?ps"
    using ps by (simp_all add: off)
  have le: "map_offset v e x \<le> uint (address x)"
    using ps by (simp add: off zmod_le_nonneg_dividend)
  have "uint (address x - word_of_int (map_offset v e x)) = uint (address x) - map_offset v e x"
  proof -
    have "uint (address x - word_of_int (map_offset v e x))
          = (uint (address x) - map_offset v e x) mod 2 ^ 64"
      by (simp add: uint_word_ariths uint_word_of_int mod_diff_right_eq)
    moreover have "uint (address x) - map_offset v e x < 2 ^ 64"
      using lo uint_lt2p [of "address x"] by simp
    ultimately show ?thesis using le by simp
  qed
  then have base: "uint (map_base v e x) = uint (address x) - map_offset v e x"
    by (simp add: map_base_def u64_of_int_def)
  have w: "0 \<le> width x div 8" "width x div 8 \<le> 8" using assms(2) by auto
  have inside: "map_offset v e x + width x div 8 \<le> map_size v e x"
    using ps hi w by (simp add: map_size_def)
  have sz: "map_size v e x < 2 ^ 31"
    using ps by (simp add: map_size_def)
  show ?thesis using off base lo inside sz by (simp add: map_size_def)
qed

section \<open>Decimal numerals and strtoull\<close>

lemma digit_range: "d < 10 \<Longrightarrow> d \<in> {0, 1, 2, 3, 4, 5, 6, 7, 8, 9::nat}"
  by auto

lemma digit_value_dec_digit: "d < 10 \<Longrightarrow> digit_value (dec_digit d) = Some d"
  by (drule digit_range) (auto simp add: dec_digit_def digit_value_def)

lemma dec_digit_plain:
  "d < 10 \<Longrightarrow> \<not> isspace (dec_digit d) \<and> dec_digit d \<noteq> CHR ''-'' \<and> dec_digit d \<noteq> CHR ''+''
     \<and> (dec_digit d = CHR ''0'' \<longleftrightarrow> d = 0)"
  by (drule digit_range) (auto simp add: dec_digit_def isspace_def)

lemma dec_head: "\<exists>d cs. dec n = dec_digit d # cs \<and> d < 10 \<and> (d = 0 \<longrightarrow> n = 0 \<and> cs = [])"
proof (induction n rule: dec.induct)
  case (1 n)
  show ?case
  proof (cases "n < 10")
    case True
    then show ?thesis by (subst dec.simps) auto
  next
    case False
    then obtain d cs where h: "dec (n div 10) = dec_digit d # cs" "d < 10" "d = 0 \<longrightarrow> n div 10 = 0 \<and> cs = []"
      using 1 by blast
    have "d \<noteq> 0" using h(3) False by auto
    then show ?thesis using False h by (subst dec.simps) auto
  qed
qed

lemma scan_digits_dec:
  "scan_digits 10 acc (dec n @ rest) = scan_digits 10 (acc * 10 ^ length (dec n) + n) rest"
proof (induction n arbitrary: acc rest rule: dec.induct)
  case (1 n)
  show ?case
  proof (cases "n < 10")
    case True
    then show ?thesis by (subst (1 2) dec.simps) (simp add: digit_value_dec_digit)
  next
    case False
    have d: "digit_value (dec_digit (n mod 10)) = Some (n mod 10)"
      by (intro digit_value_dec_digit) simp
    have "scan_digits 10 acc (dec (n div 10) @ (dec_digit (n mod 10) # rest))
          = scan_digits 10 (acc * 10 ^ length (dec (n div 10)) + n div 10) (dec_digit (n mod 10) # rest)"
      using False by (intro 1) simp
    then show ?thesis using False
      by (subst (1 2) dec.simps) (simp add: d algebra_simps)
  qed
qed

lemma scan_digits_stop:
  "rest = [] \<or> digit_value (hd rest) = None \<Longrightarrow> scan_digits b acc rest = (acc, rest)"
  by (cases rest) auto

lemma convert_dec:
  assumes "n \<le> ULLONG_MAX" and "rest = [] \<or> digit_value (hd rest) = None"
  shows "convert nptr neg (dec n @ rest) = (if neg then - word_of_nat n else word_of_nat n, rest)"
proof -
  obtain d cs where h: "dec n = dec_digit d # cs" "d < 10" "d = 0 \<longrightarrow> n = 0 \<and> cs = []"
    using dec_head by blast
  have len: "length rest \<noteq> length (dec n @ rest)" using h(1) by simp
  show ?thesis
  proof (cases "d = 0")
    case True
    then have n: "n = 0" "dec n = ''0''" using h by (auto simp add: dec_digit_def)
    have nohex: "\<not> (case ''0'' @ rest of z # x # _ \<Rightarrow> z = CHR ''0'' \<and> (x = CHR ''x'' \<or> x = CHR ''X'') | _ \<Rightarrow> False)"
      using assms(2) by (cases rest) (auto simp add: digit_value_def)
    have "scan_digits 8 0 (''0'' @ rest) = (0, rest)"
      using assms(2) by (cases rest) (auto simp add: digit_value_def)
    then show ?thesis using nohex n
      by (simp add: convert_def)
  next
    case False
    then have z: "dec_digit d \<noteq> CHR ''0''" using h(2) dec_digit_plain by blast
    have nohex: "\<not> (case dec n @ rest of z # x # _ \<Rightarrow> z = CHR ''0'' \<and> (x = CHR ''x'' \<or> x = CHR ''X'')
                  | _ \<Rightarrow> False)"
      using z h(1) by (simp split: list.splits)
    have nooct: "\<not> (case dec n @ rest of [] \<Rightarrow> False | z # _ \<Rightarrow> z = CHR ''0'')"
      using z h(1) by simp
    have scan: "scan_digits 10 0 (dec n @ rest) = (n, rest)"
      using assms(2) by (simp add: scan_digits_dec scan_digits_stop)
    have ne: "dec n \<noteq> []" using h(1) by simp
    show ?thesis unfolding convert_def Let_def
      using nohex nooct scan ne assms(1) by simp
  qed
qed

lemma strtoull_dec:
  assumes "n \<le> ULLONG_MAX" and "rest = [] \<or> digit_value (hd rest) = None"
  shows "strtoull (dec n @ rest) = (word_of_nat n, rest)"
proof -
  obtain d cs where h: "dec n = dec_digit d # cs" "d < 10"
    using dec_head by blast
  have p: "\<not> isspace (dec_digit d)" "dec_digit d \<noteq> CHR ''-''" "dec_digit d \<noteq> CHR ''+''"
    using h(2) dec_digit_plain by blast+
  have "convert (dec n @ rest) False (dec n @ rest) = (word_of_nat n, rest)"
    using assms by (simp add: convert_dec)
  then show ?thesis using h(1) p by (simp add: strtoull_def)
qed

lemma strtoull_minus_dec:
  assumes "n \<le> ULLONG_MAX" and "rest = [] \<or> digit_value (hd rest) = None"
  shows "strtoull (CHR ''-'' # dec n @ rest) = (- word_of_nat n, rest)"
proof -
  have "convert (CHR ''-'' # dec n @ rest) True (dec n @ rest) = (- word_of_nat n, rest)"
    using assms by (simp add: convert_dec)
  then show ?thesis by (simp add: strtoull_def isspace_def)
qed

section \<open>The array loop and the list loop\<close>

lemma parse_loop_list:
  assumes "length OP = MAXOPS" "ops \<le> MAXOPS" "\<forall>i. ops \<le> i \<and> i < MAXOPS \<longrightarrow> OP ! i = zero_op"
  shows "parse_loop v w sw OP ops args =
           (case parse_list v w sw (MAXOPS - ops) args of
              Inl err \<Rightarrow> Inl err
            | Inr xs \<Rightarrow> Inr (take ops OP @ xs @ replicate (MAXOPS - ops - length xs) zero_op,
                           ops + length xs))
         \<and> (\<forall>xs. parse_list v w sw (MAXOPS - ops) args = Inr xs \<longrightarrow> ops + length xs \<le> MAXOPS)"
  using assms
proof (induction args arbitrary: w sw OP ops)
  case Nil
  have "OP = take ops OP @ replicate (MAXOPS - ops) zero_op"
  proof (rule nth_equalityI)
    show "length OP = length (take ops OP @ replicate (MAXOPS - ops) zero_op)"
      using Nil by simp
  next
    fix i assume "i < length OP"
    then show "OP ! i = (take ops OP @ replicate (MAXOPS - ops) zero_op) ! i"
      using Nil by (cases "i < ops") (auto simp add: nth_append)
  qed
  then show ?case using Nil by simp
next
  case (Cons arg args)
  show ?case
  proof (cases "mode v arg")
    case (Some m)
    obtain w' sw' where m: "m = (w', sw')" by (cases m)
    show ?thesis using Cons.IH [of OP ops w' sw'] Cons.prems Some m by simp
  next
    case None
    show ?thesis
    proof (cases "ops = MAXOPS")
      case True
      then show ?thesis using None by simp
    next
      case False
      then have lt: "ops < MAXOPS" using Cons.prems by simp
      then have slot: "OP ! ops = zero_op" using Cons.prems by simp
      show ?thesis
      proof (cases "parse_arg v w sw zero_op arg")
        case None': None
        then show ?thesis using None False lt slot Cons.prems by simp
      next
        case (Some x)
        let ?OP = "OP[ops := x]"
        have a: "length ?OP = MAXOPS" "Suc ops \<le> MAXOPS"
          "\<forall>i. Suc ops \<le> i \<and> i < MAXOPS \<longrightarrow> ?OP ! i = zero_op"
          using Cons.prems lt by auto
        have t: "take (Suc ops) ?OP = take ops OP @ [x]"
          using lt Cons.prems by (simp add: take_Suc_conv_app_nth)
        have c: "MAXOPS - ops - 1 = MAXOPS - Suc ops" by simp
        show ?thesis
          using Cons.IH [OF a, of w sw] None False lt slot Some Cons.prems(1)
          by (auto simp add: t c split: sum.splits)
      qed
    qed
  qed
qed

lemma parse_via_list:
  "parse v args =
     (case parse_list v 32 0 MAXOPS args of
        Inl err \<Rightarrow> Inl err
      | Inr xs \<Rightarrow> Inr (xs @ replicate (MAXOPS - length xs) zero_op, length xs))"
  using parse_loop_list [of "replicate MAXOPS zero_op" 0 v 32 0 args]
  by (auto simp add: parse_def split: sum.splits)

lemma parse_list_length:
  "parse_list v w sw cap args = Inr xs \<Longrightarrow> length xs = length (op_tokens v args) \<and> length xs \<le> cap"
proof (induction args arbitrary: w sw cap xs)
  case Nil
  then show ?case by (simp add: op_tokens_def)
next
  case (Cons arg args)
  show ?case
  proof (cases "mode v arg")
    case (Some m)
    obtain w' sw' where m: "m = (w', sw')" by (cases m)
    have "parse_list v w' sw' cap args = Inr xs" using Cons.prems Some m by simp
    then have "length xs = length (op_tokens v args) \<and> length xs \<le> cap" by (rule Cons.IH)
    then show ?thesis using Some by (simp add: op_tokens_def)
  next
    case None
    then show ?thesis using Cons.prems Cons.IH [of w sw "cap - 1"]
      by (auto simp add: op_tokens_def split: if_splits option.splits sum.splits)
  qed
qed

lemma main_via_list:
  assumes "parse_list v 32 0 MAXOPS args = Inr xs"
  shows "main v e args wd =
           (if xs = [] then (Inl Usage, wd)
            else if \<not> open_ok e then (Inl CantOpen, wd\<lparr>events := events wd @ [Open]\<rparr>)
            else perform v e xs (wd\<lparr>events := events wd @ [Open]\<rparr>))"
  using assms by (simp add: main_def parse_via_list Let_def)

lemma main_parse_error:
  assumes "parse_list v 32 0 MAXOPS args = Inl err"
  shows "main v e args wd = (Inl err, wd)"
  using assms by (simp add: main_def parse_via_list)

lemma to_bytes_numeral:
  "to_bytes (numeral k) x = ucast x # to_bytes (pred_numeral k) (drop_bit 8 x)"
  by (simp add: numeral_eq_Suc)

section \<open>Properties of the parser\<close>

lemma parse_arg_mode:
  "parse_arg v w sw slot t = Some x \<Longrightarrow> width x = w \<and> swap x = sw"
  by (auto simp add: parse_arg_def Let_def split: prod.splits if_splits list.splits option.splits)

lemma parse_arg_None_iff:
  "parse_arg v w sw slot t = None \<longleftrightarrow> parse_arg v w' sw' slot' t = None"
  by (auto simp add: parse_arg_def Let_def split: prod.splits if_splits list.splits option.splits)

lemma rejected_iff:
  "rejected v t \<longleftrightarrow> mode v t = None \<and> parse_arg v w sw slot t = None"
  using parse_arg_None_iff [of v w sw slot t 32 0 zero_op] by (simp add: rejected_def)

lemma mode_after_Cons:
  "mode_after v m (t # ts) = mode_after v (case mode v t of None \<Rightarrow> m | Some m' \<Rightarrow> m') ts"
  by (simp add: mode_after_def)

lemma mode_after_snoc:
  "mode_after v m (ts @ [t]) = (case mode v t of None \<Rightarrow> mode_after v m ts | Some m' \<Rightarrow> m')"
  by (simp add: mode_after_def split: option.splits)

lemma current_mode_after: "current_mode v pre = mode_after v (32, 0) pre"
proof (induction pre rule: rev_induct)
  case Nil
  show ?case by (simp add: current_mode_def mode_after_def)
next
  case (snoc t pre)
  show ?case
  proof (cases "mode v t")
    case None
    then show ?thesis using snoc by (simp add: mode_after_snoc) (simp add: current_mode_def)
  next
    case (Some m)
    then show ?thesis by (simp add: mode_after_snoc) (simp add: current_mode_def)
  qed
qed

lemma parse_list_append:
  "parse_list v w sw cap (pre @ post) =
     (case parse_list v w sw cap pre of
        Inl err \<Rightarrow> Inl err
      | Inr xs \<Rightarrow>
          (case parse_list v (fst (mode_after v (w, sw) pre)) (snd (mode_after v (w, sw) pre))
                  (cap - length xs) post of
             Inl err \<Rightarrow> Inl err
           | Inr ys \<Rightarrow> Inr (xs @ ys)))"
proof (induction pre arbitrary: w sw cap)
  case Nil
  show ?case by (simp add: mode_after_def split: sum.splits)
next
  case (Cons t pre)
  show ?case
  proof (cases "mode v t")
    case (Some m)
    then show ?thesis using Cons by (cases m) (auto simp add: mode_after_Cons split: sum.splits)
  next
    case None
    then show ?thesis using Cons [of w sw "cap - 1"]
      by (auto simp add: mode_after_Cons split: sum.splits option.splits)
  qed
qed

lemma parse_list_error:
  "parse_list v w sw cap args = Inl err \<Longrightarrow>
     (\<exists>pre t post. args = pre @ t # post \<and> (\<forall>u\<in>set pre. \<not> rejected v u) \<and> rejected v t
        \<and> length (op_tokens v pre) < cap \<and> err = Invalid t)
   \<or> (\<exists>pre t post. args = pre @ t # post \<and> (\<forall>u\<in>set pre. \<not> rejected v u) \<and> mode v t = None
        \<and> length (op_tokens v pre) = cap \<and> err = TooManyOperations)"
proof (induction args arbitrary: w sw cap)
  case Nil
  then show ?case by simp
next
  case (Cons arg args)
  let ?A = "\<lambda>c as. \<exists>pre t post. as = pre @ t # post \<and> (\<forall>u\<in>set pre. \<not> rejected v u) \<and> rejected v t
        \<and> length (op_tokens v pre) < c \<and> err = Invalid t"
  let ?B = "\<lambda>c as. \<exists>pre t post. as = pre @ t # post \<and> (\<forall>u\<in>set pre. \<not> rejected v u) \<and> mode v t = None
        \<and> length (op_tokens v pre) = c \<and> err = TooManyOperations"
  show ?case
  proof (cases "mode v arg")
    case (Some m)
    obtain w' sw' where m: "m = (w', sw')" by (cases m)
    have nr: "\<not> rejected v arg" using Some by (simp add: rejected_def)
    have o: "\<And>pre. op_tokens v (arg # pre) = op_tokens v pre" using Some by (simp add: op_tokens_def)
    have "parse_list v w' sw' cap args = Inl err" using Cons.prems Some m by simp
    then have "?A cap args \<or> ?B cap args" by (rule Cons.IH)
    then show ?thesis
    proof
      assume "?A cap args"
      then obtain pre t post where h: "args = pre @ t # post" "\<forall>u\<in>set pre. \<not> rejected v u"
        "rejected v t" "length (op_tokens v pre) < cap" "err = Invalid t" by blast
      have "arg # args = (arg # pre) @ t # post \<and> (\<forall>u\<in>set (arg # pre). \<not> rejected v u) \<and> rejected v t
        \<and> length (op_tokens v (arg # pre)) < cap \<and> err = Invalid t"
        using h nr o by simp
      then show ?thesis by blast
    next
      assume "?B cap args"
      then obtain pre t post where h: "args = pre @ t # post" "\<forall>u\<in>set pre. \<not> rejected v u"
        "mode v t = None" "length (op_tokens v pre) = cap" "err = TooManyOperations" by blast
      have "arg # args = (arg # pre) @ t # post \<and> (\<forall>u\<in>set (arg # pre). \<not> rejected v u) \<and> mode v t = None
        \<and> length (op_tokens v (arg # pre)) = cap \<and> err = TooManyOperations"
        using h nr o by simp
      then show ?thesis by blast
    qed
  next
    case None
    show ?thesis
    proof (cases "cap = 0")
      case True
      then have "arg # args = [] @ arg # args \<and> (\<forall>u\<in>set []. \<not> rejected v u) \<and> mode v arg = None
        \<and> length (op_tokens v []) = cap \<and> err = TooManyOperations"
        using None Cons.prems by (simp add: op_tokens_def)
      then show ?thesis by blast
    next
      case False
      show ?thesis
      proof (cases "parse_arg v w sw zero_op arg")
        case None': None
        have "rejected v arg" using None None' rejected_iff by blast
        then have "arg # args = [] @ arg # args \<and> (\<forall>u\<in>set []. \<not> rejected v u) \<and> rejected v arg
          \<and> length (op_tokens v []) < cap \<and> err = Invalid arg"
          using None None' False Cons.prems by (simp add: op_tokens_def)
        then show ?thesis by blast
      next
        case (Some x)
        have nr: "\<not> rejected v arg" using Some rejected_iff [of v arg w sw zero_op] by simp
        have o: "\<And>pre. length (op_tokens v (arg # pre)) = Suc (length (op_tokens v pre))"
          using None by (simp add: op_tokens_def)
        have "parse_list v w sw (cap - 1) args = Inl err"
          using Cons.prems None False Some by (simp split: sum.splits)
        then have "?A (cap - 1) args \<or> ?B (cap - 1) args" by (rule Cons.IH)
        then show ?thesis
        proof
          assume "?A (cap - 1) args"
          then obtain pre t post where h: "args = pre @ t # post" "\<forall>u\<in>set pre. \<not> rejected v u"
            "rejected v t" "length (op_tokens v pre) < cap - 1" "err = Invalid t" by blast
          have "arg # args = (arg # pre) @ t # post \<and> (\<forall>u\<in>set (arg # pre). \<not> rejected v u) \<and> rejected v t
            \<and> length (op_tokens v (arg # pre)) < cap \<and> err = Invalid t"
            using h nr o False by simp
          then show ?thesis by blast
        next
          assume "?B (cap - 1) args"
          then obtain pre t post where h: "args = pre @ t # post" "\<forall>u\<in>set pre. \<not> rejected v u"
            "mode v t = None" "length (op_tokens v pre) = cap - 1" "err = TooManyOperations" by blast
          have "arg # args = (arg # pre) @ t # post \<and> (\<forall>u\<in>set (arg # pre). \<not> rejected v u) \<and> mode v t = None
            \<and> length (op_tokens v (arg # pre)) = cap \<and> err = TooManyOperations"
            using h nr o False by simp
          then show ?thesis by blast
        qed
      qed
    qed
  qed
qed

lemma parse_list_rejected:
  "\<exists>t\<in>set args. rejected v t \<Longrightarrow> \<exists>err. parse_list v w sw cap args = Inl err"
proof (induction args arbitrary: w sw cap)
  case Nil
  then show ?case by simp
next
  case (Cons arg args)
  show ?case
  proof (cases "rejected v arg")
    case True
    then have "mode v arg = None" "parse_arg v w sw zero_op arg = None"
      using rejected_iff by blast+
    then show ?thesis by simp
  next
    case False
    then have "\<exists>t\<in>set args. rejected v t" using Cons.prems by simp
    then have ih: "\<And>w sw cap. \<exists>err. parse_list v w sw cap args = Inl err" by (rule Cons.IH)
    show ?thesis
    proof (cases "mode v arg")
      case (Some m)
      then show ?thesis using ih by (cases m) simp
    next
      case None
      then show ?thesis using ih [of w sw "cap - 1"]
        by (auto split: option.splits sum.splits)
    qed
  qed
qed

lemma parse_list_too_many:
  "cap < length (op_tokens v args) \<Longrightarrow> \<exists>err. parse_list v w sw cap args = Inl err"
  using parse_list_length [of v w sw cap args] by (cases "parse_list v w sw cap args") auto

lemma parse_list_not_OutOfBounds: "parse_list v w sw cap args \<noteq> Inl OutOfBounds"
  using parse_list_error [of v w sw cap args OutOfBounds] by auto

section \<open>Evaluation on concrete inputs\<close>

lemma hex_digits_numeral:
  "hex_digits (numeral k) = hex_digits (numeral k div 16) @ [hex_digit (numeral k mod 16)]"
  "hex_digits 0 = []"
  by (subst hex_digits.simps, simp)+

lemma hex_digits_one: "hex_digits (Suc 0) = ''1''"
  by (subst hex_digits.simps) (simp add: hex_digits_numeral hex_digit_def)

lemma replicate_num: "replicate (numeral k) x = x # replicate (pred_numeral k) x"
  by (simp add: numeral_eq_Suc)

lemmas eval_parse = mode_def mode_char_def parse_arg_def strtoull_def convert_def isspace_def
  digit_value_def ULLONG_MAX_def Let_def zero_op_def MAXOPS_def operator_at_def expect_eq_def
  swap_data_def

lemmas eval_perform = perform_op_def map_offset_def map_size_def map_base_def page_size_def
  int_of_u64_def u64_of_int_def access_def load_def store_def compound_def print_hex_def
  printf_X_def hex_digits_numeral hex_digits_one hex_digit_def env_of_page_size_def all_mapped_def
  world_zero_def zero_mem_def exit_status_def to_bytes_numeral upt_rec bswap_def replicate_num

section \<open>Mode persistence\<close>

text \<open>
  Claim C7. Every operation token gets the width and the swap flag of the last mode token
  before it in the argument vector, or width 32 unswapped when no mode token precedes it;
  what follows the token (\<open>post\<close>) has no influence on the mode the operation captured.
\<close>

theorem mode_persistence:
  assumes "parse v (pre @ tok # post) = Inr (OP, n)" and "mode v tok = None"
  shows "length (op_tokens v pre) < n
       \<and> width (OP ! length (op_tokens v pre)) = fst (current_mode v pre)
       \<and> swap (OP ! length (op_tokens v pre)) = snd (current_mode v pre)"
proof -
  let ?m = "mode_after v (32, 0) pre"
  obtain xs where xs: "parse_list v 32 0 MAXOPS (pre @ tok # post) = Inr xs"
    and OP: "OP = xs @ replicate (MAXOPS - length xs) zero_op" and n: "n = length xs"
  proof (cases "parse_list v 32 0 MAXOPS (pre @ tok # post)")
    case (Inl err)
    then have "parse v (pre @ tok # post) = Inl err" by (simp add: parse_via_list)
    then show ?thesis using assms(1) by simp
  next
    case (Inr xs)
    then have "parse v (pre @ tok # post) = Inr (xs @ replicate (MAXOPS - length xs) zero_op, length xs)"
      by (simp add: parse_via_list)
    then show ?thesis using assms(1) Inr that by simp
  qed
  obtain xs1 ys where xs1: "parse_list v 32 0 MAXOPS pre = Inr xs1"
    and ys: "parse_list v (fst ?m) (snd ?m) (MAXOPS - length xs1) (tok # post) = Inr ys"
    and cat: "xs = xs1 @ ys"
  proof (cases "parse_list v 32 0 MAXOPS pre")
    case (Inl err)
    then show ?thesis using xs by (simp add: parse_list_append)
  next
    case (Inr xs1)
    show ?thesis
    proof (cases "parse_list v (fst ?m) (snd ?m) (MAXOPS - length xs1) (tok # post)")
      case (Inl err)
      then show ?thesis using xs Inr by (simp add: parse_list_append)
    next
      case Inr': (Inr ys)
      then have "xs = xs1 @ ys" using xs Inr by (simp add: parse_list_append)
      then show ?thesis using Inr Inr' that by blast
    qed
  qed
  obtain x ys' where x: "parse_arg v (fst ?m) (snd ?m) zero_op tok = Some x" and ys': "ys = x # ys'"
    using ys assms(2) by (auto split: if_splits option.splits sum.splits)
  have k: "length xs1 = length (op_tokens v pre)"
    using xs1 parse_list_length by blast
  have "OP ! length (op_tokens v pre) = x"
    using OP cat ys' k by (simp add: nth_append)
  moreover have "width x = fst ?m \<and> swap x = snd ?m"
    using x by (rule parse_arg_mode)
  moreover have "length (op_tokens v pre) < n"
    using n cat ys' k by simp
  ultimately show ?thesis by (simp add: current_mode_after)
qed

theorem mode_persistence_witness:
  "parse Basic ([''b'', ''0x10'', ''0x20=5'', ''h''] @ ''0x30'' # [''d'', ''7''])
     = Inr ([\<lparr>operator = READ, width = 8, swap = 0, address = 0x10, data = 0\<rparr>,
             \<lparr>operator = WRITE, width = 8, swap = 0, address = 0x20, data = 5\<rparr>,
             \<lparr>operator = READ, width = 16, swap = 0, address = 0x30, data = 0\<rparr>,
             \<lparr>operator = READ, width = 64, swap = 0, address = 7, data = 0\<rparr>]
            @ replicate 252 zero_op, 4)
   \<and> mode Basic ''0x30'' = None
   \<and> length (op_tokens Basic [''b'', ''0x10'', ''0x20=5'', ''h'']) = 2
   \<and> current_mode Basic [''b'', ''0x10'', ''0x20=5'', ''h''] = (16, 0)
   \<and> width (([\<lparr>operator = READ, width = 8, swap = 0, address = 0x10, data = 0\<rparr>,
             \<lparr>operator = WRITE, width = 8, swap = 0, address = 0x20, data = 5\<rparr>,
             \<lparr>operator = READ, width = 16, swap = 0, address = 0x30, data = 0\<rparr>,
             \<lparr>operator = READ, width = 64, swap = 0, address = 7, data = 0\<rparr>]
            @ replicate 252 zero_op) ! 2) = 16"
proof -
  have p: "parse Basic ([''b'', ''0x10'', ''0x20=5'', ''h''] @ ''0x30'' # [''d'', ''7''])
     = Inr ([\<lparr>operator = READ, width = 8, swap = 0, address = 0x10, data = 0\<rparr>,
             \<lparr>operator = WRITE, width = 8, swap = 0, address = 0x20, data = 5\<rparr>,
             \<lparr>operator = READ, width = 16, swap = 0, address = 0x30, data = 0\<rparr>,
             \<lparr>operator = READ, width = 64, swap = 0, address = 7, data = 0\<rparr>]
            @ replicate 252 zero_op, 4)"
    by (simp add: parse_via_list) (simp add: eval_parse)
  have m: "mode Basic ''0x30'' = None"
    by (simp add: eval_parse)
  have c: "length (op_tokens Basic [''b'', ''0x10'', ''0x20=5'', ''h'']) = 2
     \<and> current_mode Basic [''b'', ''0x10'', ''0x20=5'', ''h''] = (16, 0)"
    by (simp add: op_tokens_def current_mode_def eval_parse)
  show ?thesis using mode_persistence [OF p m] p m c by simp
qed

section \<open>The bound on the number of operations\<close>

lemma parse_list_replicate:
  assumes "mode v t = None" "parse_arg v w sw zero_op t = Some x"
  shows "n \<le> cap \<Longrightarrow> parse_list v w sw cap (replicate n t @ rest) =
           (case parse_list v w sw (cap - n) rest of
              Inl err \<Rightarrow> Inl err
            | Inr ys \<Rightarrow> Inr (replicate n x @ ys))"
proof (induction n arbitrary: cap)
  case 0
  show ?case by (simp split: sum.splits)
next
  case (Suc n)
  have "n \<le> cap - 1" using Suc.prems by simp
  then have "parse_list v w sw (cap - 1) (replicate n t @ rest) =
           (case parse_list v w sw (cap - 1 - n) rest of
              Inl err \<Rightarrow> Inl err
            | Inr ys \<Rightarrow> Inr (replicate n x @ ys))"
    by (rule Suc.IH)
  then show ?case using assms Suc.prems by (simp split: sum.splits)
qed

text \<open>
  Claim C8. The parser stores at most 256 operations. An argument vector with a 257th
  operation token (mode tokens do not count) ends in a fatal parse error: exit status 1
  and the world untouched, so the device is not opened and memory is not accessed; the
  error is ``too many operations'' when no token is rejected. No store into the array
  \<^verbatim>\<open>OP\<close> is out of bounds: the parser never ends in \<open>OutOfBounds\<close>.
\<close>

theorem operation_list_bounded:
  "MAXOPS = 256
   \<and> parse v args \<noteq> Inl OutOfBounds
   \<and> (\<forall>OP n. parse v args = Inr (OP, n) \<longrightarrow>
         n = length (op_tokens v args) \<and> n \<le> MAXOPS \<and> length OP = MAXOPS)
   \<and> (MAXOPS < length (op_tokens v args) \<longrightarrow>
         (\<exists>err. main v e args wd = (Inl err, wd)) \<and> exit_status (main v e args wd) = 1)
   \<and> (MAXOPS < length (op_tokens v args) \<and> (\<forall>t\<in>set args. \<not> rejected v t) \<longrightarrow>
         main v e args wd = (Inl TooManyOperations, wd))"
proof -
  have a: "parse v args \<noteq> Inl OutOfBounds"
    using parse_list_not_OutOfBounds [of v 32 0 MAXOPS args]
    by (cases "parse_list v 32 0 MAXOPS args") (simp_all add: parse_via_list)
  have b: "n = length (op_tokens v args) \<and> n \<le> MAXOPS \<and> length OP = MAXOPS"
    if "parse v args = Inr (OP, n)" for OP n
  proof (cases "parse_list v 32 0 MAXOPS args")
    case (Inl err)
    then show ?thesis using that by (simp add: parse_via_list)
  next
    case (Inr xs)
    then have "length xs = length (op_tokens v args) \<and> length xs \<le> MAXOPS"
      by (rule parse_list_length)
    then show ?thesis using that Inr by (auto simp add: parse_via_list)
  qed
  have c: "(\<exists>err. main v e args wd = (Inl err, wd)) \<and> exit_status (main v e args wd) = 1"
    if h: "MAXOPS < length (op_tokens v args)"
  proof -
    obtain err where "parse_list v 32 0 MAXOPS args = Inl err"
      using parse_list_too_many [OF h] by blast
    then have "main v e args wd = (Inl err, wd)" by (rule main_parse_error)
    then show ?thesis by (simp add: exit_status_def)
  qed
  have d: "main v e args wd = (Inl TooManyOperations, wd)"
    if h: "MAXOPS < length (op_tokens v args)" "\<forall>t\<in>set args. \<not> rejected v t"
  proof -
    obtain err where err: "parse_list v 32 0 MAXOPS args = Inl err"
      using parse_list_too_many [OF h(1)] by blast
    have "err = TooManyOperations"
      using parse_list_error [OF err] h(2) by auto
    then show ?thesis using err by (simp add: main_parse_error)
  qed
  show ?thesis using a b c d by (simp add: MAXOPS_def)
qed

lemma rejected_zero_token: "\<not> rejected Basic ''0''" "mode Basic ''0'' = None"
  by (simp_all add: rejected_def eval_parse)

theorem operation_list_bounded_witness:
  "MAXOPS < length (op_tokens Basic (replicate 257 ''0''))
   \<and> set (replicate 257 ''0'') = {''0''} \<and> \<not> rejected Basic ''0''
   \<and> main Basic (env_of_page_size 4096) (replicate 257 ''0'') world_zero
       = (Inl TooManyOperations, world_zero)
   \<and> exit_status (main Basic (env_of_page_size 4096) (replicate 257 ''0'') world_zero) = 1
   \<and> parse Basic [''0''] = Inr (\<lparr>operator = READ, width = 32, swap = 0, address = 0, data = 0\<rparr>
         # replicate 255 zero_op, 1)
   \<and> length (op_tokens Basic [''0'']) = 1"
proof -
  have h1: "MAXOPS < length (op_tokens Basic (replicate 257 ''0''))"
    by (simp add: op_tokens_def rejected_zero_token MAXOPS_def)
  have h2: "\<forall>t\<in>set (replicate 257 ''0''). \<not> rejected Basic t"
    by (simp add: rejected_zero_token)
  have p: "parse Basic [''0''] = Inr (\<lparr>operator = READ, width = 32, swap = 0, address = 0, data = 0\<rparr>
         # replicate 255 zero_op, 1)"
    by (simp add: parse_via_list) (simp add: eval_parse)
  show ?thesis
    using operation_list_bounded [of Basic "replicate 257 ''0''" "env_of_page_size 4096" world_zero]
      operation_list_bounded [of Basic "[''0'']" "env_of_page_size 4096" world_zero] h1 h2 p
    by (simp add: exit_status_def op_tokens_def rejected_zero_token)
qed

section \<open>Numerals with a minus sign\<close>

lemma word_of_nat_complement:
  "n \<le> 2 ^ 64 \<Longrightarrow> (word_of_nat (2 ^ 64 - n) :: u64) = - word_of_nat n"
  by (simp add: of_nat_diff)

lemma mode_dec: "mode v (dec n @ rest) = None"
proof -
  obtain d cs where h: "dec n = dec_digit d # cs" "d < 10"
    using dec_head by blast
  have "mode_char v (dec_digit d) = None"
    using digit_range [OF h(2)] by (auto simp add: dec_digit_def mode_char_def)
  then show ?thesis using h(1) by (simp add: mode_def)
qed

lemma parse_arg_read:
  assumes "strtoull t = (a, [])" "t \<noteq> []"
  shows "parse_arg v w sw zero_op t
         = Some \<lparr>operator = READ, width = w, swap = sw, address = a, data = 0\<rparr>"
  using assms by (simp add: parse_arg_def zero_op_def)

lemma parse_arg_write:
  assumes "strtoull (t @ CHR ''='' # val) = (a, CHR ''='' # val)" "t \<noteq> []"
      and "strtoull val = (d, [])" "val \<noteq> []"
  shows "parse_arg v w sw zero_op (t @ CHR ''='' # val)
         = Some \<lparr>operator = WRITE, width = w, swap = sw, address = a,
                  data = (if v = Extended then swap_data sw w d else d)\<rparr>"
proof -
  have "CHR ''='' # val \<noteq> t @ CHR ''='' # val"
    using assms(2) by (metis append_self_conv2)
  then show ?thesis
    using assms by (simp add: parse_arg_def zero_op_def operator_at_def)
qed

text \<open>
  Claim C10. A numeral with a leading minus sign is accepted: \<^verbatim>\<open>strtoull\<close> reads the sign
  and negates modulo \<open>2 ^ 64\<close>, so \<open>-n\<close> parses to \<open>2 ^ 64 - n\<close>, both as an address and as a
  value, and the operation is stored as the first element of the array.
\<close>

theorem minus_sign_accepted:
  assumes "n < 2 ^ 64" and "a < 2 ^ 64"
  shows "strtoull (CHR ''-'' # dec n) = (word_of_nat (2 ^ 64 - n), [])
       \<and> parse v [CHR ''-'' # dec n]
           = Inr (\<lparr>operator = READ, width = 32, swap = 0, address = word_of_nat (2 ^ 64 - n),
                    data = 0\<rparr> # replicate 255 zero_op, 1)
       \<and> parse v [dec a @ ''=-'' @ dec n]
           = Inr (\<lparr>operator = WRITE, width = 32, swap = 0, address = word_of_nat a,
                    data = word_of_nat (2 ^ 64 - n)\<rparr> # replicate 255 zero_op, 1)"
proof -
  have n: "n \<le> ULLONG_MAX" and a: "a \<le> ULLONG_MAX" using assms by (simp_all add: ULLONG_MAX_def)
  have c: "(word_of_nat (2 ^ 64 - n) :: u64) = - word_of_nat n"
    using assms(1) by (intro word_of_nat_complement) simp
  have s: "strtoull (CHR ''-'' # dec n) = (- word_of_nat n, [])"
    using strtoull_minus_dec [OF n, of "[]"] by simp
  have m1: "mode v (CHR ''-'' # dec n) = None"
    by (simp add: mode_def mode_char_def)
  have r: "parse_arg v 32 0 zero_op (CHR ''-'' # dec n)
           = Some \<lparr>operator = READ, width = 32, swap = 0, address = - word_of_nat n, data = 0\<rparr>"
    using s by (intro parse_arg_read) simp_all
  have p1: "parse_list v 32 0 MAXOPS [CHR ''-'' # dec n]
            = Inr [\<lparr>operator = READ, width = 32, swap = 0, address = - word_of_nat n, data = 0\<rparr>]"
    using m1 r by (simp add: MAXOPS_def)
  have ne: "dec a \<noteq> []" using dec_head [of a] by auto
  have sa: "strtoull (dec a @ CHR ''='' # CHR ''-'' # dec n) = (word_of_nat a, CHR ''='' # CHR ''-'' # dec n)"
    using a by (intro strtoull_dec) (simp_all add: digit_value_def)
  have w: "parse_arg v 32 0 zero_op (dec a @ CHR ''='' # CHR ''-'' # dec n)
           = Some \<lparr>operator = WRITE, width = 32, swap = 0, address = word_of_nat a,
                    data = (if v = Extended then swap_data 0 32 (- word_of_nat n) else - word_of_nat n)\<rparr>"
    using sa ne s by (intro parse_arg_write) simp_all
  have m2: "mode v (dec a @ CHR ''='' # CHR ''-'' # dec n) = None"
    by (rule mode_dec)
  have p2: "parse_list v 32 0 MAXOPS [dec a @ CHR ''='' # CHR ''-'' # dec n]
            = Inr [\<lparr>operator = WRITE, width = 32, swap = 0, address = word_of_nat a,
                     data = - word_of_nat n\<rparr>]"
    using m2 w by (simp add: MAXOPS_def swap_data_def)
  have "parse v [CHR ''-'' # dec n]
           = Inr (\<lparr>operator = READ, width = 32, swap = 0, address = - word_of_nat n,
                    data = 0\<rparr> # replicate 255 zero_op, 1)"
    by (simp only: parse_via_list p1) (simp add: MAXOPS_def)
  moreover have "parse v [dec a @ ''=-'' @ dec n]
           = Inr (\<lparr>operator = WRITE, width = 32, swap = 0, address = word_of_nat a,
                    data = - word_of_nat n\<rparr> # replicate 255 zero_op, 1)"
    using p2 by (simp only: parse_via_list append.simps) (simp add: MAXOPS_def)
  ultimately show ?thesis unfolding c using s by simp
qed

theorem minus_sign_accepted_witness:
  "(1::nat) < 2 ^ 64 \<and> (16::nat) < 2 ^ 64
   \<and> strtoull ''-1'' = (0xFFFFFFFFFFFFFFFF, [])
   \<and> parse Basic [''-1'']
       = Inr (\<lparr>operator = READ, width = 32, swap = 0, address = 0xFFFFFFFFFFFFFFFF, data = 0\<rparr>
              # replicate 255 zero_op, 1)
   \<and> parse Basic [''16=-1'']
       = Inr (\<lparr>operator = WRITE, width = 32, swap = 0, address = 16, data = 0xFFFFFFFFFFFFFFFF\<rparr>
              # replicate 255 zero_op, 1)"
proof -
  have d: "dec (Suc 0) = ''1''" "dec 16 = ''16''"
    by (simp_all add: dec.simps dec_digit_def)
  show ?thesis
    using minus_sign_accepted [of 1 16 Basic] by (simp add: d)
qed

section \<open>Tokens on which the parser stops\<close>

lemma main_rejected:
  assumes "\<exists>t\<in>set args. rejected v t"
  shows "\<exists>err. main v e args wd = (Inl err, wd) \<and>
     ((\<exists>pre t post. args = pre @ t # post \<and> (\<forall>u\<in>set pre. \<not> rejected v u) \<and> rejected v t
        \<and> length (op_tokens v pre) < MAXOPS \<and> err = Invalid t)
    \<or> (\<exists>pre t post. args = pre @ t # post \<and> (\<forall>u\<in>set pre. \<not> rejected v u) \<and> mode v t = None
        \<and> length (op_tokens v pre) = MAXOPS \<and> err = TooManyOperations))"
proof -
  obtain err where err: "parse_list v 32 0 MAXOPS args = Inl err"
    using parse_list_rejected [OF assms] by blast
  have "main v e args wd = (Inl err, wd)"
    using err by (rule main_parse_error)
  then show ?thesis using parse_list_error [OF err] by blast
qed

section \<open>Properties of the executor\<close>

lemma byte_reverse_from_bytes:
  assumes "length bs = n" "n \<le> 8"
  shows "byte_reverse n (from_bytes bs :: u64) = from_bytes (rev bs)"
proof -
  have "to_bytes (length bs) (from_bytes bs :: u64) = bs"
    using assms by (intro to_from_bytes) simp
  then show ?thesis using assms by (simp add: byte_reverse_def)
qed

lemma byte_reverse_involution:
  assumes "n \<le> 8"
  shows "byte_reverse n (byte_reverse n y) = take_bit (8 * n) y"
proof -
  have "byte_reverse n (from_bytes (rev (to_bytes n y)) :: u64) = from_bytes (rev (rev (to_bytes n y)))"
    using assms by (intro byte_reverse_from_bytes) (simp_all add: length_to_bytes)
  then show ?thesis
    using from_to_bytes [of n y, where 'b = 64] by (simp add: byte_reverse_def)
qed

lemma read_value_peek:
  assumes "nat (width x div 8) \<le> 8"
  shows "read_value v x m =
           unat (if v = Extended \<and> swap x \<noteq> 0
                 then byte_reverse (nat (width x div 8)) (peek m (address x) (nat (width x div 8)))
                 else peek m (address x) (nat (width x div 8)))"
  using assms byte_reverse_from_bytes
    [of "map (\<lambda>i. m (address x + word_of_nat i)) [0..<nat (width x div 8)]" "nat (width x div 8)"]
  by (auto simp add: read_value_def peek_def Let_def)

lemma read_value_less:
  assumes "nat (width x div 8) \<le> 8"
  shows "read_value v x m < 2 ^ (8 * nat (width x div 8))"
proof -
  let ?bs = "map (\<lambda>i. m (address x + word_of_nat i)) [0..<nat (width x div 8)]"
  have "take_bit (8 * length bs) (from_bytes bs :: u64) = from_bytes bs"
    if "length bs = nat (width x div 8)" for bs
    using that assms by (intro from_bytes_small) simp
  then have "unat (from_bytes bs :: u64) < 2 ^ (8 * nat (width x div 8))"
    if "length bs = nat (width x div 8)" for bs
    using that by (metis unsigned_take_bit_eq take_bit_nat_less_exp)
  then show ?thesis by (simp add: read_value_def Let_def)
qed

lemma unat_ucast_up:
  assumes "LENGTH('a) \<le> 64"
  shows "unat (ucast (w :: 'a::len word) :: u64) = unat w"
proof -
  have "unat w < 2 ^ LENGTH('a)" by (rule unsigned_less)
  also have "(2::nat) ^ LENGTH('a) \<le> 2 ^ 64"
    using assms by (intro power_increasing) simp_all
  finally have "take_bit 64 (unat w) = unat w"
    by (intro take_bit_nat_eq_self) simp
  then show ?thesis by (simp add: unsigned_ucast_eq)
qed

lemma unat_load:
  assumes "8 dvd LENGTH('a)" "LENGTH('a) \<le> 64"
  shows "unat (load m a :: 'a::len word) = unat (peek m a (LENGTH('a) div 8))"
proof -
  have "unat (ucast (load m a :: 'a word) :: u64) = unat (load m a :: 'a word)"
    using assms(2) by (simp add: unat_ucast_up)
  then show ?thesis using assms by (simp add: ucast_load)
qed

lemma unat_bswap_load:
  assumes "8 dvd LENGTH('a)" "LENGTH('a) \<le> 64"
  shows "unat (bswap (load m a :: 'a::len word))
         = unat (byte_reverse (LENGTH('a) div 8) (peek m a (LENGTH('a) div 8)))"
proof -
  let ?n = "LENGTH('a) div 8"
  let ?bs = "map (\<lambda>i. m (a + word_of_nat i)) [0..<?n]"
  have n: "8 * ?n = LENGTH('a)" "?n \<le> 8" using assms by auto
  have "bswap (from_bytes ?bs :: 'a word) = from_bytes (rev ?bs)"
    using n by (intro bswap_from_bytes) simp
  moreover have "(from_bytes (rev ?bs) :: u64) = ucast (from_bytes (rev ?bs) :: 'a word)"
    using n by (intro from_bytes_ucast) simp
  moreover have "byte_reverse ?n (from_bytes ?bs :: u64) = from_bytes (rev ?bs)"
    using n by (intro byte_reverse_from_bytes) simp_all
  moreover have "unat (ucast (from_bytes (rev ?bs) :: 'a word) :: u64) = unat (from_bytes (rev ?bs) :: 'a word)"
    using assms(2) by (simp add: unat_ucast_up)
  ultimately show ?thesis by (simp add: load_def peek_def)
qed

lemmas unat_load_8 = unat_load [where 'a = 8, simplified]
lemmas unat_load_16 = unat_load [where 'a = 16, simplified]
lemmas unat_load_32 = unat_load [where 'a = 32, simplified]
lemmas unat_load_64 = unat_load [where 'a = 64, simplified]
lemmas unat_bswap_load_16 = unat_bswap_load [where 'a = 16, simplified]
lemmas unat_bswap_load_32 = unat_bswap_load [where 'a = 32, simplified]
lemmas unat_bswap_load_64 = unat_bswap_load [where 'a = 64, simplified]

lemma byte_reverse_one: "byte_reverse (Suc 0) (peek m a (Suc 0)) = peek m a (Suc 0)"
  using byte_reverse_from_bytes [of "[m a]" 1] by (simp add: peek_def)

lemma access_read:
  assumes "operator x = READ" "width x \<in> {8, 16, 32, 64}"
  shows "access v x (address x) wd = wd\<lparr>stdout := stdout wd @ emitted v x (mem wd)\<rparr>"
proof -
  have n: "nat (width x div 8) \<le> 8" using assms(2) by auto
  show ?thesis
    using assms
    by (auto simp add: access_def emitted_def Let_def read_value_peek [OF n] unat_load_8
        unat_load_16 unat_load_32 unat_load_64 unat_bswap_load_16 unat_bswap_load_32
        unat_bswap_load_64 byte_reverse_one)
qed

lemma access_other:
  assumes "operator x \<noteq> READ"
  shows "stdout (access v x a wd) = stdout wd" "events (access v x a wd) = events wd"
  using assms by (cases "operator x"; simp add: access_def Let_def)+

lemma access_events: "events (access v x a wd) = events wd"
  by (cases "operator x") (simp_all add: access_def Let_def)

lemma perform_op_ok:
  assumes "perform_op v e x wd = (Inr u, wd')"
  shows "wd' = (access v x (address x) (wd\<lparr>events := events wd @ [Mmap (map_base v e x) (map_size v e x)]\<rparr>))
                \<lparr>events := events wd @ [Mmap (map_base v e x) (map_size v e x), Munmap (map_size v e x)]\<rparr>"
  using assms
  by (auto simp add: perform_op_def Let_def map_base_offset access_events split: if_splits)

lemma perform_op_mapped:
  assumes "mmap_ok e (map_base v e x) (map_size v e x)"
  shows "perform_op v e x wd =
           (Inr (), (access v x (address x) (wd\<lparr>events := events wd @ [Mmap (map_base v e x) (map_size v e x)]\<rparr>))
                \<lparr>events := events wd @ [Mmap (map_base v e x) (map_size v e x), Munmap (map_size v e x)]\<rparr>)"
  using assms
  by (simp add: perform_op_def Let_def map_base_offset access_events)

lemma perform_op_output:
  assumes "perform_op v e x wd = (Inr u, wd')" "width x \<in> {8, 16, 32, 64}"
  shows "stdout wd' = stdout wd @ emitted v x (mem wd)"
proof (cases "operator x = READ")
  case True
  then show ?thesis
    using perform_op_ok [OF assms(1)] assms(2) by (simp add: access_read)
next
  case False
  then show ?thesis
    using perform_op_ok [OF assms(1)] by (simp add: access_other emitted_def)
qed

lemma perform_op_failed:
  assumes "perform_op v e x wd = (Inl err, wd')"
  shows "stdout wd' = stdout wd" "mem wd' = mem wd"
  using assms by (auto simp add: perform_op_def Let_def split: if_splits)

lemma perform_output_prefix:
  assumes "perform v e xs wd = (r, wd')" "\<forall>x\<in>set xs. width x \<in> {8, 16, 32, 64}"
  shows "\<exists>k\<le>length xs. (r = Inr () \<longrightarrow> k = length xs) \<and>
           stdout wd' = stdout wd @
             concat (map (\<lambda>i. emitted v (xs ! i) (mem (snd (perform v e (take i xs) wd)))) [0..<k])"
  using assms
proof (induction xs arbitrary: wd)
  case Nil
  then show ?case by simp
next
  case (Cons x xs)
  obtain rx wd1 where op: "perform_op v e x wd = (rx, wd1)" by (cases "perform_op v e x wd")
  show ?case
  proof (cases rx)
    case (Inl err)
    then have "r = Inl err" "wd' = wd1" using Cons.prems(1) op by simp_all
    moreover have "stdout wd1 = stdout wd" using op Inl perform_op_failed(1) by blast
    ultimately have "0 \<le> length (x # xs) \<and> (r = Inr () \<longrightarrow> 0 = length (x # xs)) \<and>
           stdout wd' = stdout wd @
             concat (map (\<lambda>i. emitted v ((x # xs) ! i) (mem (snd (perform v e (take i (x # xs)) wd)))) [0..<0])"
      by simp
    then show ?thesis by blast
  next
    case (Inr u)
    then have op': "perform_op v e x wd = (Inr (), wd1)" using op by simp
    have rest: "perform v e xs wd1 = (r, wd')" using Cons.prems(1) op' by simp
    have o: "stdout wd1 = stdout wd @ emitted v x (mem wd)"
      using op' Cons.prems(2) by (intro perform_op_output) auto
    obtain k where k: "k \<le> length xs" "r = Inr () \<longrightarrow> k = length xs"
      "stdout wd' = stdout wd1 @
         concat (map (\<lambda>i. emitted v (xs ! i) (mem (snd (perform v e (take i xs) wd1)))) [0..<k])"
      using Cons.IH [OF rest] Cons.prems(2) by auto
    have "map (\<lambda>i. emitted v ((x # xs) ! i) (mem (snd (perform v e (take i (x # xs)) wd)))) [0..<Suc k]
          = emitted v x (mem wd)
            # map (\<lambda>i. emitted v (xs ! i) (mem (snd (perform v e (take i xs) wd1)))) [0..<k]"
      using op' by (simp add: upt_conv_Cons map_Suc_upt [symmetric] del: upt_Suc)
    then have "Suc k \<le> length (x # xs) \<and> (r = Inr () \<longrightarrow> Suc k = length (x # xs)) \<and>
           stdout wd' = stdout wd @
             concat (map (\<lambda>i. emitted v ((x # xs) ! i) (mem (snd (perform v e (take i (x # xs)) wd)))) [0..<Suc k])"
      using k o by simp
    then show ?thesis by blast
  qed
qed

section \<open>The printed line\<close>

lemma hex_digit_value: "d < 16 \<Longrightarrow> digit_value (hex_digit d) = Some d"
proof -
  assume "d < 16"
  then have "d \<in> {0, 1, 2, 3, 4, 5, 6, 7, 8, 9, 10, 11, 12, 13, 14, 15}" by simp presburger
  then show ?thesis by (auto simp add: hex_digit_def digit_value_def)
qed

lemma hex_digit_upper: "d < 16 \<Longrightarrow> hex_digit d \<in> set ''0123456789ABCDEF''"
  unfolding hex_digit_def by (rule nth_mem) simp

lemma hex_value_snoc:
  "hex_value (ds @ [c]) = hex_value ds * 16 + (case digit_value c of None \<Rightarrow> 0 | Some d \<Rightarrow> d)"
  by (simp add: hex_value_def)

lemma hex_value_hex_digits: "hex_value (hex_digits n) = n"
proof (induction n rule: hex_digits.induct)
  case (1 n)
  show ?case
  proof (cases "n = 0")
    case True
    then show ?thesis by (subst hex_digits.simps) (simp add: hex_value_def)
  next
    case False
    then have "hex_value (hex_digits (n div 16)) = n div 16" by (rule 1)
    then show ?thesis using False
      by (subst hex_digits.simps) (simp add: hex_value_snoc hex_digit_value)
  qed
qed

lemma set_hex_digits_in:
  assumes "\<And>d. d < 16 \<Longrightarrow> hex_digit d \<in> S"
  shows "set (hex_digits n) \<subseteq> S"
proof (induction n rule: hex_digits.induct)
  case (1 n)
  show ?case
  proof (cases "n = 0")
    case True
    then show ?thesis by (subst hex_digits.simps) simp
  next
    case False
    have "hex_digit (n mod 16) \<in> S"
      by (rule assms) simp
    moreover have "set (hex_digits (n div 16)) \<subseteq> S"
      using False by (rule 1)
    ultimately show ?thesis using False
      by (subst hex_digits.simps) simp
  qed
qed

lemma set_printf_X:
  assumes "\<And>d. d < 16 \<Longrightarrow> hex_digit d \<in> S"
  shows "set (printf_X k n) \<subseteq> S"
proof -
  have "hex_digit 0 \<in> S" by (rule assms) simp
  then have "CHR ''0'' \<in> S" by (simp add: hex_digit_def)
  then show ?thesis
    using set_hex_digits_in [of S n] assms by (auto simp add: printf_X_def)
qed

lemma length_hex_digits: "n < 16 ^ k \<Longrightarrow> length (hex_digits n) \<le> k"
proof (induction k arbitrary: n)
  case 0
  then show ?case by (subst hex_digits.simps) simp
next
  case (Suc k)
  show ?case
  proof (cases "n = 0")
    case True
    then show ?thesis by (subst hex_digits.simps) simp
  next
    case False
    have "n div 16 < 16 ^ k" using Suc.prems by (simp add: less_mult_imp_div_less)
    then have "length (hex_digits (n div 16)) \<le> k" by (rule Suc.IH)
    then show ?thesis using False by (subst hex_digits.simps) simp
  qed
qed

lemma hex_value_zeros: "hex_value (replicate j CHR ''0'' @ ds) = hex_value ds"
proof -
  have "foldl (\<lambda>acc c. acc * 16 + (case digit_value c of None \<Rightarrow> 0 | Some d \<Rightarrow> d)) 0
          (replicate j CHR ''0'') = 0"
    by (induction j) (simp_all add: digit_value_def)
  then show ?thesis by (simp add: hex_value_def)
qed

lemma printf_X_format:
  assumes "n < 16 ^ k"
  shows "length (printf_X k n) = k \<and> set (printf_X k n) \<subseteq> set ''0123456789ABCDEF''
         \<and> hex_value (printf_X k n) = n"
proof -
  have "length (hex_digits n) \<le> k" using assms by (rule length_hex_digits)
  then have "length (printf_X k n) = k" by (simp add: printf_X_def)
  moreover have "set (printf_X k n) \<subseteq> set ''0123456789ABCDEF''"
    using hex_digit_upper by (rule set_printf_X)
  moreover have "hex_value (printf_X k n) = n"
    by (simp add: printf_X_def hex_value_zeros hex_value_hex_digits)
  ultimately show ?thesis by simp
qed

lemma emitted_format:
  assumes "width x \<in> {8, 16, 32, 64}" "operator x = READ"
  shows "\<exists>ds. emitted v x m = ''0x'' @ ds @ [CHR 0x0A] \<and> length ds = nat (width x div 4)
           \<and> set ds \<subseteq> set ''0123456789ABCDEF'' \<and> hex_value ds = read_value v x m"
proof -
  have n: "nat (width x div 8) \<le> 8" using assms(1) by auto
  have "(16::nat) ^ nat (width x div 4) = 2 ^ (8 * nat (width x div 8))"
    using assms(1) by auto
  then have "read_value v x m < 16 ^ nat (width x div 4)"
    using read_value_less [OF n, of v m] by simp
  then show ?thesis
    using assms(2) printf_X_format by (simp add: emitted_def print_hex_def)
qed

lemma perform_output_format:
  assumes "perform v e xs wd = (r, wd')" and "\<forall>x\<in>set xs. width x \<in> {8, 16, 32, 64}"
  shows "\<exists>parts. stdout wd' = stdout wd @ concat parts \<and> length parts \<le> length xs \<and>
           (r = Inr () \<longrightarrow> length parts = length xs) \<and>
           (\<forall>i<length parts.
              (operator (xs ! i) \<noteq> READ \<longrightarrow> parts ! i = [])
            \<and> (operator (xs ! i) = READ \<longrightarrow>
                 (\<exists>ds. parts ! i = ''0x'' @ ds @ [CHR 0x0A]
                    \<and> length ds = nat (width (xs ! i) div 4)
                    \<and> set ds \<subseteq> set ''0123456789ABCDEF''
                    \<and> hex_value ds
                       = read_value v (xs ! i) (mem (snd (perform v e (take i xs) wd))))))"
proof -
  obtain k where k: "k \<le> length xs" "r = Inr () \<longrightarrow> k = length xs"
    "stdout wd' = stdout wd @
       concat (map (\<lambda>i. emitted v (xs ! i) (mem (snd (perform v e (take i xs) wd)))) [0..<k])"
    using perform_output_prefix [OF assms] by blast
  let ?parts = "map (\<lambda>i. emitted v (xs ! i) (mem (snd (perform v e (take i xs) wd)))) [0..<k]"
  have len: "length ?parts = k" by simp
  have "(operator (xs ! i) \<noteq> READ \<longrightarrow> ?parts ! i = [])
            \<and> (operator (xs ! i) = READ \<longrightarrow>
                 (\<exists>ds. ?parts ! i = ''0x'' @ ds @ [CHR 0x0A]
                    \<and> length ds = nat (width (xs ! i) div 4)
                    \<and> set ds \<subseteq> set ''0123456789ABCDEF''
                    \<and> hex_value ds
                       = read_value v (xs ! i) (mem (snd (perform v e (take i xs) wd)))))"
    if i: "i < length ?parts" for i
  proof -
    have ik: "i < k" using i by simp
    have w: "width (xs ! i) \<in> {8, 16, 32, 64}" using assms(2) ik k(1) by simp
    have p: "?parts ! i = emitted v (xs ! i) (mem (snd (perform v e (take i xs) wd)))"
      using ik by simp
    show ?thesis
      unfolding p using emitted_format [OF w] by (simp add: emitted_def)
  qed
  then show ?thesis using k(1,2) k(3) len by (intro exI [of _ ?parts]) simp
qed

section \<open>Writing and reading back\<close>

lemma mode_width:
  assumes "mode v m = Some (w, sw)"
  shows "w \<in> {8, 16, 32, 64}"
  using assms by (cases m) (auto simp add: mode_def mode_char_def split: if_splits)

lemma take_bit_data:
  assumes "w \<in> {8, 16, 32, 64}"
  shows "take_bit (nat w) (if v = Extended then swap_data sw w d else d)
         = (if v = Extended \<and> sw \<noteq> 0 then byte_reverse (nat (w div 8)) (trunc_bits w d)
            else trunc_bits w d)"
proof -
  have t: "trunc_bits w d = take_bit (nat w) d"
    using assms by (intro trunc_bits_take_bit) auto
  show ?thesis
    using assms take_bit_swap_data [of w sw d] by (auto simp add: t swap_data_def)
qed

lemma read_after_write:
  assumes w: "w \<in> {8, 16, 32, 64}"
  shows "read_value v \<lparr>operator = READ, width = w, swap = sw, address = a, data = 0\<rparr>
           (mem (access v \<lparr>operator = WRITE, width = w, swap = sw, address = a,
                    data = (if v = Extended then swap_data sw w d else d)\<rparr> a wd))
         = unat d mod 2 ^ nat w"
proof -
  let ?xW = "\<lparr>operator = WRITE, width = w, swap = sw, address = a,
                    data = (if v = Extended then swap_data sw w d else d)\<rparr>"
  let ?xR = "\<lparr>operator = READ, width = w, swap = sw, address = a, data = 0\<rparr>"
  let ?n = "nat (w div 8)"
  let ?T = "trunc_bits w d"
  have n: "?n \<le> 8" "8 * ?n = nat w" using w by auto
  have T: "?T = take_bit (nat w) d"
    using w by (intro trunc_bits_take_bit) auto
  have "peek (mem (access v ?xW a wd)) a (nat (width ?xW div 8))
        = apply_operator (operator ?xW) (peek (mem wd) a (nat (width ?xW div 8)))
            (take_bit (nat (width ?xW)) (data ?xW))"
    using w by (intro peek_access) simp_all
  then have p: "peek (mem (access v ?xW a wd)) a ?n
        = (if v = Extended \<and> sw \<noteq> 0 then byte_reverse ?n ?T else ?T)"
    using take_bit_data [OF w, of v sw d] by (simp add: apply_operator_def)
  have "read_value v ?xR (mem (access v ?xW a wd))
        = unat (if v = Extended \<and> sw \<noteq> 0
                then byte_reverse ?n (peek (mem (access v ?xW a wd)) a ?n)
                else peek (mem (access v ?xW a wd)) a ?n)"
    using n(1) read_value_peek [of ?xR v "mem (access v ?xW a wd)"] by simp
  also have "\<dots> = unat ?T"
  proof (cases "v = Extended \<and> sw \<noteq> 0")
    case True
    have "byte_reverse ?n (byte_reverse ?n ?T) = take_bit (8 * ?n) ?T"
      using n(1) by (rule byte_reverse_involution)
    moreover have "peek (mem (access v ?xW a wd)) a ?n = byte_reverse ?n ?T"
      using p True by simp
    ultimately show ?thesis using True n(2) by (simp add: T)
  next
    case False
    moreover have "peek (mem (access v ?xW a wd)) a ?n = ?T"
      using p False by simp
    ultimately show ?thesis by auto
  qed
  finally show ?thesis by (simp add: unat_trunc_bits)
qed

lemma mem_access_read: "operator x = READ \<Longrightarrow> mem (access v x a wd) = mem wd"
  by (simp add: access_def Let_def)

lemma strtoull_dec_end: "n \<le> ULLONG_MAX \<Longrightarrow> strtoull (dec n) = (word_of_nat n, [])"
  using strtoull_dec [of n "[]"] by simp

lemma dec_not_Nil: "dec n \<noteq> []"
  using dec_head [of n] by auto

lemma unat_word_of_nat_64: "d < 2 ^ 64 \<Longrightarrow> unat (word_of_nat d :: u64) = d"
  by (simp add: unat_of_nat)

text \<open>
  Claim C6. In any mode, given by a mode token \<open>m\<close> of width \<open>w\<close>, writing the value \<open>d\<close>
  to the address \<open>a\<close> and reading the same address prints \<open>d\<close> truncated to \<open>w\<close> bits, as
  \<open>w / 4\<close> hexadecimal digits, provided the device opens and the mappings are granted. In
  a swapped mode of the extended variant the value is stored with its bytes reversed and
  the bytes are reversed again after the load, so the printed value is still
  \<open>d mod 2 ^ w\<close>.
\<close>

theorem write_read_round_trip:
  assumes "mode v m = Some (w, sw)" and "a < 2 ^ 64" and "d < 2 ^ 64"
      and "open_ok e" and "\<forall>base sz. mmap_ok e base sz"
  shows "\<exists>wd' ds. main v e [m, dec a @ ''='' @ dec d, dec a] wd = (Inr (), wd')
           \<and> stdout wd' = stdout wd @ ''0x'' @ ds @ [CHR 0x0A]
           \<and> length ds = nat (w div 4) \<and> set ds \<subseteq> set ''0123456789ABCDEF''
           \<and> hex_value ds = d mod 2 ^ nat w
           \<and> peek (mem wd') (word_of_nat a) (nat (w div 8))
               = (if v = Extended \<and> sw \<noteq> 0
                  then byte_reverse (nat (w div 8)) (trunc_bits w (word_of_nat d))
                  else trunc_bits w (word_of_nat d))"
proof -
  let ?D = "word_of_nat d :: u64" and ?A = "word_of_nat a :: u64"
  let ?xW = "\<lparr>operator = WRITE, width = w, swap = sw, address = ?A,
               data = (if v = Extended then swap_data sw w ?D else ?D)\<rparr>"
  let ?xR = "\<lparr>operator = READ, width = w, swap = sw, address = ?A, data = 0\<rparr>"
  let ?tW = "dec a @ CHR ''='' # dec d" and ?tR = "dec a"
  have w: "w \<in> {8, 16, 32, 64}" using assms(1) by (rule mode_width)
  have a: "a \<le> ULLONG_MAX" and d: "d \<le> ULLONG_MAX"
    using assms(2,3) by (simp_all add: ULLONG_MAX_def)
  have sW: "strtoull ?tW = (?A, CHR ''='' # dec d)"
    using a by (intro strtoull_dec) (simp_all add: digit_value_def)
  have pW: "parse_arg v w sw zero_op ?tW = Some ?xW"
    using sW dec_not_Nil strtoull_dec_end [OF d] dec_not_Nil by (rule parse_arg_write)
  have pR: "parse_arg v w sw zero_op ?tR = Some ?xR"
    using strtoull_dec_end [OF a] dec_not_Nil by (rule parse_arg_read)
  have mW: "mode v ?tW = None" by (rule mode_dec)
  have mR: "mode v ?tR = None" using mode_dec [of v a "[]"] by simp
  have "parse_list v 32 0 MAXOPS [m, ?tW, ?tR] = Inr [?xW, ?xR]"
    using assms(1) pW pR mW mR by (simp add: MAXOPS_def)
  from main_via_list [OF this]
  have main: "main v e [m, ?tW, ?tR] wd = perform v e [?xW, ?xR] (wd\<lparr>events := events wd @ [Open]\<rparr>)"
    using assms(4) by simp
  let ?wd1 = "wd\<lparr>events := events wd @ [Open]\<rparr>"
  obtain wdA where opW: "perform_op v e ?xW ?wd1 = (Inr (), wdA)"
    using perform_op_mapped [of e v ?xW ?wd1] assms(5) by simp
  obtain wdB where opR: "perform_op v e ?xR wdA = (Inr (), wdB)"
    using perform_op_mapped [of e v ?xR wdA] assms(5) by simp
  have run: "main v e [m, ?tW, ?tR] wd = (Inr (), wdB)"
    using main opW opR by simp
  have A: "wdA = (access v ?xW ?A (?wd1\<lparr>events := events ?wd1 @ [Mmap (map_base v e ?xW) (map_size v e ?xW)]\<rparr>))
                \<lparr>events := events ?wd1 @ [Mmap (map_base v e ?xW) (map_size v e ?xW), Munmap (map_size v e ?xW)]\<rparr>"
    using perform_op_ok [OF opW] by simp
  have outA: "stdout wdA = stdout wd"
    by (simp add: A access_other)
  have outB: "stdout wdB = stdout wdA @ emitted v ?xR (mem wdA)"
    using opR w by (intro perform_op_output) simp_all
  have memB: "mem wdB = mem wdA"
    using perform_op_ok [OF opR] by (simp add: mem_access_read)
  let ?wd2 = "?wd1\<lparr>events := events ?wd1 @ [Mmap (map_base v e ?xW) (map_size v e ?xW)]\<rparr>"
  have memA: "mem wdA = mem (access v ?xW ?A ?wd2)"
    by (simp add: A)
  have val: "read_value v ?xR (mem wdA) = d mod 2 ^ nat w"
    using read_after_write [OF w, of v sw ?A ?D ?wd2] assms(3)
    by (simp add: memA unat_word_of_nat_64)
  obtain ds where ds: "emitted v ?xR (mem wdA) = ''0x'' @ ds @ [CHR 0x0A]"
    "length ds = nat (w div 4)" "set ds \<subseteq> set ''0123456789ABCDEF''"
    "hex_value ds = read_value v ?xR (mem wdA)"
    using emitted_format [of ?xR v "mem wdA"] w by auto
  have "peek (mem (access v ?xW ?A ?wd2)) ?A (nat (width ?xW div 8))
        = apply_operator (operator ?xW) (peek (mem ?wd2) ?A (nat (width ?xW div 8)))
            (take_bit (nat (width ?xW)) (data ?xW))"
    using w by (intro peek_access) simp_all
  then have pk: "peek (mem wdB) ?A (nat (w div 8))
        = (if v = Extended \<and> sw \<noteq> 0 then byte_reverse (nat (w div 8)) (trunc_bits w ?D)
           else trunc_bits w ?D)"
    using take_bit_data [OF w, of v sw ?D] by (simp add: memB memA apply_operator_def)
  have "main v e [m, dec a @ ''='' @ dec d, dec a] wd = (Inr (), wdB)
        \<and> stdout wdB = stdout wd @ ''0x'' @ ds @ [CHR 0x0A]
        \<and> length ds = nat (w div 4) \<and> set ds \<subseteq> set ''0123456789ABCDEF''
        \<and> hex_value ds = d mod 2 ^ nat w
        \<and> peek (mem wdB) ?A (nat (w div 8))
            = (if v = Extended \<and> sw \<noteq> 0 then byte_reverse (nat (w div 8)) (trunc_bits w ?D)
               else trunc_bits w ?D)"
    using run outA outB ds val pk by simp
  then show ?thesis by blast
qed

theorem write_read_round_trip_witness:
  "mode Extended ''W'' = Some (32, 1) \<and> (4095::nat) < 2 ^ 64 \<and> (287454020::nat) < 2 ^ 64
   \<and> open_ok (env_of_page_size 4096) \<and> (\<forall>base sz. mmap_ok (env_of_page_size 4096) base sz)
   \<and> stdout (snd (main Extended (env_of_page_size 4096)
                 [''W'', ''4095=287454020'', ''4095''] world_zero)) = ''0x11223344'' @ [CHR 0x0A]
   \<and> (\<exists>wd' ds. main Extended (env_of_page_size 4096)
                 [''W'', ''4095=287454020'', ''4095''] world_zero = (Inr (), wd')
          \<and> stdout wd' = ''0x'' @ ds @ [CHR 0x0A] \<and> length ds = 8
          \<and> hex_value ds = 287454020)"
proof -
  have h: "mode Extended ''W'' = Some (32, 1)" "(4095::nat) < 2 ^ 64" "(287454020::nat) < 2 ^ 64"
    "open_ok (env_of_page_size 4096)" "\<forall>base sz. mmap_ok (env_of_page_size 4096) base sz"
    by (simp_all add: mode_def mode_char_def env_of_page_size_def all_mapped_def)
  have d: "dec 4095 = ''4095''" "dec 287454020 = ''287454020''"
    by (simp_all add: dec.simps dec_digit_def)
  have "parse_list Extended 32 0 MAXOPS [''W'', ''4095=287454020'', ''4095'']
        = Inr [\<lparr>operator = WRITE, width = 32, swap = 1, address = 4095, data = 0x44332211\<rparr>,
               \<lparr>operator = READ, width = 32, swap = 1, address = 4095, data = 0\<rparr>]"
    by (simp add: eval_parse bswap_def to_bytes_numeral)
  from main_via_list [OF this]
  have r: "stdout (snd (main Extended (env_of_page_size 4096)
                 [''W'', ''4095=287454020'', ''4095''] world_zero)) = ''0x11223344'' @ [CHR 0x0A]"
    by (simp add: eval_perform)
  obtain wd' ds where "main Extended (env_of_page_size 4096) [''W'', dec 4095 @ ''='' @ dec 287454020, dec 4095] world_zero = (Inr (), wd')"
    "stdout wd' = stdout world_zero @ ''0x'' @ ds @ [CHR 0x0A]" "length ds = nat (32 div 4)"
    "hex_value ds = 287454020 mod 2 ^ nat 32"
    using write_read_round_trip [OF h, of world_zero] by blast
  then have "main Extended (env_of_page_size 4096)
                 [''W'', ''4095=287454020'', ''4095''] world_zero = (Inr (), wd')
          \<and> stdout wd' = ''0x'' @ ds @ [CHR 0x0A] \<and> length ds = 8
          \<and> hex_value ds = 287454020"
    by (simp add: d world_zero_def)
  then show ?thesis using h r by blast
qed

section \<open>The page size\<close>

text \<open>
  Claim C2. The page size behind the page offset and the mapping size is to come from the
  runtime environment. The extended variant takes it from \<^verbatim>\<open>getpagesize()\<close>; \<^verbatim>\<open>mem.c\<close>
  uses the constant 4096 whatever the environment says. On a machine with pages of 65536
  bytes \<^verbatim>\<open>mem.c\<close> asks for a mapping at offset \<^verbatim>\<open>0x1000\<close>, which is not a multiple of the
  page size there.
\<close>

theorem page_size_of_basic_variant:
  "getpagesize (env_of_page_size 65536) = 65536
   \<and> page_size Basic (env_of_page_size 65536) = 4096
   \<and> page_size Extended (env_of_page_size 65536) = 65536
   \<and> map_base Basic (env_of_page_size 65536)
        \<lparr>operator = READ, width = 32, swap = 0, address = 0x1000, data = 0\<rparr> = 0x1000
   \<and> map_size Basic (env_of_page_size 65536)
        \<lparr>operator = READ, width = 32, swap = 0, address = 0x1000, data = 0\<rparr> = 4096
   \<and> map_base Extended (env_of_page_size 65536)
        \<lparr>operator = READ, width = 32, swap = 0, address = 0x1000, data = 0\<rparr> = 0
   \<and> map_size Extended (env_of_page_size 65536)
        \<lparr>operator = READ, width = 32, swap = 0, address = 0x1000, data = 0\<rparr> = 65536"
  by (simp add: eval_perform)

section \<open>The parser against the token grammar of the specification\<close>

lemma mode_spec:
  "mode v t = (case t of [] \<Rightarrow> None | c # _ \<Rightarrow> map_of (mode_characters v) c)"
  by (cases t) (auto simp add: mode_def mode_char_def mode_characters_def)

lemma mode_character_set:
  "fst ` set (mode_characters v) =
     {CHR ''b'', CHR ''h'', CHR ''w'', CHR ''d''}
     \<union> (if v = Extended then {CHR ''H'', CHR ''W'', CHR ''D''} else {})"
  by (cases v) (auto simp add: mode_characters_def)

lemma mode_None_iff: "mode v t = None \<longleftrightarrow> \<not> begins_with_mode_character v t"
  by (cases t) (auto simp add: mode_def mode_char_def begins_with_mode_character_def
      mode_character_set)

lemma operation_tokens_eq: "operation_tokens v args = op_tokens v args"
  by (simp add: operation_tokens_def op_tokens_def mode_None_iff)

lemma scan_digits_suffix: "\<exists>pre. cs = pre @ snd (scan_digits b acc cs)"
proof (induction cs arbitrary: acc)
  case Nil
  show ?case by simp
next
  case (Cons c cs)
  show ?case
  proof (cases "digit_value c")
    case None
    then show ?thesis by simp
  next
    case (Some d)
    show ?thesis
    proof (cases "d < b")
      case True
      obtain pre where "cs = pre @ snd (scan_digits b (acc * b + d) cs)"
        using Cons [of "acc * b + d"] by blast
      then have "c # cs = (c # pre) @ snd (scan_digits b acc (c # cs))"
        using Some True by simp
      then show ?thesis by blast
    next
      case False
      then show ?thesis using Some by simp
    qed
  qed
qed

lemma sfx_drop: "\<exists>pre. s = pre @ drop n s"
  by (metis append_take_drop_id)

lemma sfx_trans: "\<exists>p. s = p @ t \<Longrightarrow> \<exists>q. t = q @ u \<Longrightarrow> \<exists>r. s = r @ u"
  by auto

lemma sfx_refl: "\<exists>pre. s = pre @ s"
  by simp

lemma convert_suffix:
  assumes "\<exists>pre. nptr = pre @ s1"
  shows "\<exists>pre. nptr = pre @ snd (convert nptr neg s1)"
proof -
  let ?hex = "(case s1 of z # x # _ \<Rightarrow> z = CHR ''0'' \<and> (x = CHR ''x'' \<or> x = CHR ''X'') | _ \<Rightarrow> False)"
  let ?octal = "(case s1 of [] \<Rightarrow> False | z # _ \<Rightarrow> z = CHR ''0'')"
  let ?base = "(if ?hex then 16 else if ?octal then 8 else 10) :: nat"
  let ?s2 = "if ?hex then drop 2 s1 else s1"
  obtain n endp where sd: "scan_digits ?base 0 ?s2 = (n, endp)"
    by (cases "scan_digits ?base 0 ?s2")
  have h1: "\<exists>q. s1 = q @ ?s2"
  proof (cases ?hex)
    case True
    then show ?thesis by (simp only: if_True) (rule sfx_drop)
  next
    case False
    then show ?thesis by (simp only: if_False) (rule sfx_refl)
  qed
  have "\<exists>r. ?s2 = r @ snd (scan_digits ?base 0 ?s2)"
    by (rule scan_digits_suffix)
  then have h2: "\<exists>r. ?s2 = r @ endp"
    by (simp only: sd snd_conv)
  have a: "\<exists>pre. nptr = pre @ endp"
    by (rule sfx_trans [OF sfx_trans [OF assms h1] h2])
  have b: "\<exists>pre. nptr = pre @ drop 1 s1"
    by (rule sfx_trans [OF assms sfx_drop])
  have c: "\<exists>pre. nptr = pre @ nptr"
    by (rule sfx_refl)
  have "convert nptr neg s1 =
          (if length endp = length ?s2 then (0, if ?hex then drop 1 s1 else nptr)
           else (if ULLONG_MAX < n then word_of_nat ULLONG_MAX
                 else if neg then - word_of_nat n else word_of_nat n, endp))"
    unfolding convert_def Let_def sd prod.case by (rule refl)
  then have "snd (convert nptr neg s1) = endp \<or> snd (convert nptr neg s1) = drop 1 s1
        \<or> snd (convert nptr neg s1) = nptr"
    by (cases "length endp = length ?s2"; cases ?hex; simp only: if_True if_False snd_conv; simp)
  then show ?thesis using a b c by (elim disjE) (simp_all only:)
qed

lemma strip_sign_suffix:
  "\<exists>q. x = q @ (case x of [] \<Rightarrow> x | c # t \<Rightarrow> if P c then t else x)"
  by (cases x) auto

lemma strtoull_suffix: "\<exists>pre. s = pre @ snd (strtoull s)"
proof -
  let ?s = "dropWhile isspace s"
  let ?s1 = "(case ?s of [] \<Rightarrow> ?s | c # t \<Rightarrow> if c = CHR ''-'' \<or> c = CHR ''+'' then t else ?s)"
  have "\<exists>p. s = p @ ?s"
    by (metis takeWhile_dropWhile_id)
  moreover have "\<exists>q. ?s = q @ ?s1"
    by (rule strip_sign_suffix)
  ultimately have "\<exists>pre. s = pre @ ?s1"
    by (rule sfx_trans)
  then show ?thesis
    unfolding strtoull_def Let_def by (rule convert_suffix)
qed

lemma strtoull_consumed:
  "snd (strtoull s) = s \<longleftrightarrow> \<not> length (snd (strtoull s)) < length s"
proof -
  obtain pre where pre: "s = pre @ snd (strtoull s)" using strtoull_suffix by blast
  then have "length s = length pre + length (snd (strtoull s))"
    by (metis length_append)
  moreover have "pre = [] \<longleftrightarrow> snd (strtoull s) = s"
    using pre by (metis append_self_conv2)
  ultimately show ?thesis by auto
qed

lemma numeric_literal_iff:
  "numeric_literal s = (if snd (strtoull s) = s then None else Some (strtoull s))"
proof -
  obtain n rest where nr: "strtoull s = (n, rest)" by (cases "strtoull s")
  then show ?thesis using strtoull_consumed [of s]
    by (simp add: numeric_literal_def)
qed

lemma operator_suffix_Cons:
  "operator_suffix (c # p) = operator_at c p"
  by (cases p)
     (auto simp add: operator_suffix_def operator_at_def expect_eq_def)

lemma parse_arg_spec:
  "parse_arg v w sw slot t =
     (case operation_of_token t of
        None \<Rightarrow> None
      | Some (f, a, d) \<Rightarrow>
          Some (slot\<lparr>operator := f, width := w, swap := sw, address := a,
                  data := (case d of None \<Rightarrow> data slot
                           | Some d' \<Rightarrow> if v = Extended then swap_data sw w d' else d')\<rparr>))"
proof -
  obtain a p where ap: "strtoull t = (a, p)" by (cases "strtoull t")
  show ?thesis
  proof (cases "p = t")
    case True
    then show ?thesis using ap
      by (simp add: parse_arg_def operation_of_token_def numeric_literal_iff)
  next
    case False
    show ?thesis
    proof (cases p)
      case Nil
      then show ?thesis using ap False
        by (simp add: parse_arg_def operation_of_token_def numeric_literal_iff)
    next
      case (Cons c p1)
      show ?thesis
      proof (cases "operator_at c p1")
        case None
        then show ?thesis using ap False Cons
          by (simp add: parse_arg_def operation_of_token_def numeric_literal_iff operator_suffix_Cons)
      next
        case (Some fp)
        obtain f p2 where fp: "fp = (f, p2)" by (cases fp)
        obtain d p3 where dp: "strtoull p2 = (d, p3)" by (cases "strtoull p2")
        have sfx: "operator_suffix p = Some (f, p2)"
          using Cons Some fp by (simp add: operator_suffix_Cons)
        have nl: "numeric_literal t = Some (a, p)"
          using ap False by (simp add: numeric_literal_iff)
        have pa: "parse_arg v w sw slot t =
                   (if p2 = [] then None
                    else if p3 \<noteq> [] then None
                    else Some (slot\<lparr>width := w, swap := sw, address := a, operator := f,
                            data := (if v = Extended then swap_data sw w d else d)\<rparr>))"
          using ap False Cons Some fp dp by (simp add: parse_arg_def)
        show ?thesis
        proof (cases "p2 = []")
          case True
          then have "numeric_literal p2 = None" by (simp add: numeric_literal_def split: prod.splits)
          then show ?thesis using True pa nl sfx Cons
            by (simp add: operation_of_token_def)
        next
          case ne: False
          show ?thesis
          proof (cases "p3 = []")
            case True
            then have "numeric_literal p2 = Some (d, [])"
              using dp ne by (simp add: numeric_literal_def)
            then show ?thesis using True ne pa nl sfx Cons
              by (simp add: operation_of_token_def)
          next
            case False
            then have "numeric_literal p2 = None \<or> numeric_literal p2 = Some (d, p3)"
              using dp by (simp add: numeric_literal_def)
            then show ?thesis using False ne pa nl sfx Cons
              by (auto simp add: operation_of_token_def)
          qed
        qed
      qed
    qed
  qed
qed

lemma rejected_invalid: "rejected v t \<longleftrightarrow> invalid_token v t"
proof -
  have "parse_arg v 32 0 zero_op t = None \<longleftrightarrow> operation_of_token t = None"
    by (cases "operation_of_token t") (auto simp add: parse_arg_spec)
  then show ?thesis
    by (auto simp add: rejected_def invalid_token_def well_formed_operation_def mode_None_iff)
qed

section \<open>Invalid tokens\<close>

lemma invalid_x: "invalid_token Basic ''x''" "\<not> invalid_token Basic ''0x10=1''"
  by (simp_all add: invalid_token_def begins_with_mode_character_def mode_character_set
      well_formed_operation_def operation_of_token_def numeric_literal_def operator_suffix_def
      strtoull_def convert_def isspace_def digit_value_def ULLONG_MAX_def Let_def)

text \<open>
  Claim C1, as the code has it. A token is invalid when it does not begin with a mode
  character and is no well-formed operation token of the specification. For every
  argument vector that holds an invalid token the program ends with exit status 1 and
  leaves the world as it was: the device is not opened, nothing is mapped, read, written
  or printed to standard output. The message names the first invalid token when fewer
  than 256 operations precede it, and is ``too many operations'' when 256 valid
  operations come first.
\<close>

theorem rejected_token_no_access:
  assumes "\<exists>t\<in>set args. invalid_token v t"
  shows "\<exists>err. main v e args wd = (Inl err, wd) \<and> exit_status (main v e args wd) = 1 \<and>
     ((\<exists>pre t post. args = pre @ t # post \<and> (\<forall>u\<in>set pre. \<not> invalid_token v u)
        \<and> invalid_token v t \<and> length (operation_tokens v pre) < MAXOPS \<and> err = Invalid t)
    \<or> (\<exists>pre t post. args = pre @ t # post \<and> (\<forall>u\<in>set pre. \<not> invalid_token v u)
        \<and> \<not> begins_with_mode_character v t \<and> length (operation_tokens v pre) = MAXOPS
        \<and> err = TooManyOperations))"
proof -
  have "\<exists>t\<in>set args. rejected v t"
    using assms by (simp add: rejected_invalid)
  then obtain err where err: "main v e args wd = (Inl err, wd)"
    and c: "(\<exists>pre t post. args = pre @ t # post \<and> (\<forall>u\<in>set pre. \<not> rejected v u) \<and> rejected v t
        \<and> length (op_tokens v pre) < MAXOPS \<and> err = Invalid t)
    \<or> (\<exists>pre t post. args = pre @ t # post \<and> (\<forall>u\<in>set pre. \<not> rejected v u) \<and> mode v t = None
        \<and> length (op_tokens v pre) = MAXOPS \<and> err = TooManyOperations)"
    using main_rejected [of args v e wd] by blast
  have "exit_status (main v e args wd) = 1"
    using err by (simp add: exit_status_def)
  then show ?thesis
    using err c unfolding rejected_invalid operation_tokens_eq mode_None_iff by blast
qed

theorem rejected_token_no_access_witness:
  "invalid_token Basic ''x'' \<and> ''x'' \<in> set [''0x10=1'', ''x'', ''0x20'']
   \<and> \<not> invalid_token Basic ''0x10=1''
   \<and> main Basic (env_of_page_size 4096) [''0x10=1'', ''x'', ''0x20''] world_zero
       = (Inl (Invalid ''x''), world_zero)
   \<and> exit_status (main Basic (env_of_page_size 4096) [''0x10=1'', ''x'', ''0x20''] world_zero) = 1"
proof -
  have h: "\<exists>t\<in>set [''0x10=1'', ''x'', ''0x20'']. invalid_token Basic t"
    using invalid_x(1) by simp
  have m: "main Basic (env_of_page_size 4096) [''0x10=1'', ''x'', ''0x20''] world_zero
       = (Inl (Invalid ''x''), world_zero)"
    by (rule main_parse_error) (simp add: eval_parse)
  show ?thesis
    using rejected_token_no_access [OF h, of "env_of_page_size 4096" world_zero] m invalid_x
    by auto
qed

text \<open>
  Claim C1 as the specification words it fails in two ways. The token \<^verbatim>\<open>bogus\<close> is
  neither a single mode character nor a well-formed operation token, yet the program takes
  it for the mode \<^verbatim>\<open>b\<close> and goes on to read memory. And after 256 valid operations the
  malformed token \<^verbatim>\<open>x\<close> is not printed: the message is ``too many operations''.
\<close>

theorem rejected_token_counterexample:
  "\<not> single_mode_token Basic ''bogus''
   \<and> \<not> well_formed_operation ''bogus''
   \<and> main Basic (env_of_page_size 4096) [''bogus'', ''0''] world_zero
       = (Inr (), \<lparr>mem = zero_mem, stdout = ''0x00'' @ [CHR 0x0A],
                  events = [Open, Mmap 0 4096, Munmap 4096]\<rparr>)
   \<and> \<not> single_mode_token Basic ''x''
   \<and> \<not> well_formed_operation ''x''
   \<and> main Basic (env_of_page_size 4096) (replicate 256 ''0'' @ [''x'']) world_zero
       = (Inl TooManyOperations, world_zero)"
proof -
  have a: "\<not> single_mode_token Basic ''bogus'' \<and> \<not> well_formed_operation ''bogus''
     \<and> \<not> single_mode_token Basic ''x'' \<and> \<not> well_formed_operation ''x''"
    by (simp add: single_mode_token_def mode_character_set
      well_formed_operation_def operation_of_token_def numeric_literal_def operator_suffix_def
      strtoull_def convert_def isspace_def digit_value_def ULLONG_MAX_def Let_def)
  have "parse_list Basic 32 0 MAXOPS [''bogus'', ''0'']
        = Inr [\<lparr>operator = READ, width = 8, swap = 0, address = 0, data = 0\<rparr>]"
    by (simp add: eval_parse)
  from main_via_list [OF this]
  have b: "main Basic (env_of_page_size 4096) [''bogus'', ''0''] world_zero
       = (Inr (), \<lparr>mem = zero_mem, stdout = ''0x00'' @ [CHR 0x0A],
                  events = [Open, Mmap 0 4096, Munmap 4096]\<rparr>)"
    by (simp add: eval_perform)
  have z: "mode Basic ''0'' = None"
    "parse_arg Basic 32 0 zero_op ''0''
       = Some \<lparr>operator = READ, width = 32, swap = 0, address = 0, data = 0\<rparr>"
    by (simp_all add: eval_parse)
  have "parse_list Basic 32 0 MAXOPS (replicate 256 ''0'' @ [''x''])
        = (case parse_list Basic 32 0 (MAXOPS - 256) [''x''] of
             Inl err \<Rightarrow> Inl err
           | Inr ys \<Rightarrow> Inr (replicate 256 \<lparr>operator = READ, width = 32, swap = 0, address = 0, data = 0\<rparr> @ ys))"
    using z by (rule parse_list_replicate) (simp add: MAXOPS_def)
  also have "parse_list Basic 32 0 (MAXOPS - 256) [''x''] = Inl TooManyOperations"
    by (simp add: MAXOPS_def mode_def mode_char_def)
  finally have "parse_list Basic 32 0 MAXOPS (replicate 256 ''0'' @ [''x'']) = Inl TooManyOperations"
    by simp
  then have c: "main Basic (env_of_page_size 4096) (replicate 256 ''0'' @ [''x'']) world_zero
       = (Inl TooManyOperations, world_zero)"
    by (rule main_parse_error)
  show ?thesis using a b c by simp
qed

section \<open>Tokens that begin with a mode character\<close>

lemma parse_list_mode_cong:
  assumes "mode v t = mode v t'" "mode v t \<noteq> None"
  shows "parse_list v w sw cap (pre @ t # post) = parse_list v w sw cap (pre @ t' # post)"
proof -
  obtain m where m: "mode v t = Some m" using assms(2) by blast
  obtain w' sw' where "m = (w', sw')" by (cases m)
  then have "parse_list v a b c (t # post) = parse_list v a b c (t' # post)" for a b c
    using m assms(1) by simp
  then show ?thesis by (simp only: parse_list_append)
qed

lemma main_mode_cong:
  assumes "mode v t = mode v t'" "mode v t \<noteq> None"
  shows "main v e (pre @ t # post) wd = main v e (pre @ t' # post) wd"
  unfolding main_def parse_via_list parse_list_mode_cong [OF assms] by (rule refl)

lemma parse_loop_operation:
  assumes "mode v t = None" "ops < MAXOPS" "length OP = MAXOPS"
  shows "parse_loop v w sw OP ops (t # rest) =
          (case operation_of_token t of
             None \<Rightarrow> Inl (Invalid t)
           | Some (f, a, d) \<Rightarrow>
               parse_loop v w sw
                 (OP[ops := (OP ! ops)\<lparr>operator := f, width := w, swap := sw, address := a,
                        data := (case d of None \<Rightarrow> data (OP ! ops)
                                 | Some d' \<Rightarrow> if v = Extended then swap_data sw w d' else d')\<rparr>])
                 (Suc ops) rest)"
  using assms by (cases "operation_of_token t") (auto simp add: parse_arg_spec)

text \<open>
  Claim C3, as the code has it. A token that begins with one of the mode characters
  \<^verbatim>\<open>b\<close>, \<^verbatim>\<open>h\<close>, \<^verbatim>\<open>w\<close>, \<^verbatim>\<open>d\<close> (and \<^verbatim>\<open>H\<close>, \<^verbatim>\<open>W\<close>, \<^verbatim>\<open>D\<close> in the extended variant) is
  treated as a mode token whatever follows the character: the parser stores nothing, goes
  on in the mode of that character, and the whole run is the run with the single
  character in its place. A token that begins with no mode character is parsed as an
  operation: stored when it is a well-formed operation token of the specification, and
  the error of an invalid token otherwise. An argument vector that holds an invalid token
  makes the run a fatal error with exit status 1.
\<close>

theorem mode_token_first_character:
  "(begins_with_mode_character v t \<longrightarrow>
      (\<exists>c cs w' sw'. t = c # cs \<and> (c, w', sw') \<in> set (mode_characters v)
         \<and> parse_loop v w sw OP ops (t # rest) = parse_loop v w' sw' OP ops rest
         \<and> main v e (pre @ t # post) wd = main v e (pre @ [c] # post) wd))
   \<and> (\<not> begins_with_mode_character v t \<and> ops < MAXOPS \<and> length OP = MAXOPS \<longrightarrow>
        parse_loop v w sw OP ops (t # rest) =
          (case operation_of_token t of
             None \<Rightarrow> Inl (Invalid t)
           | Some (f, a, d) \<Rightarrow>
               parse_loop v w sw
                 (OP[ops := (OP ! ops)\<lparr>operator := f, width := w, swap := sw, address := a,
                        data := (case d of None \<Rightarrow> data (OP ! ops)
                                 | Some d' \<Rightarrow> if v = Extended then swap_data sw w d' else d')\<rparr>])
                 (Suc ops) rest))
   \<and> (t \<in> set args \<and> invalid_token v t \<longrightarrow>
        exit_status (main v e args wd) = 1
        \<and> (main v e args wd = (Inl TooManyOperations, wd)
           \<or> (\<exists>u\<in>set args. invalid_token v u \<and> main v e args wd = (Inl (Invalid u), wd))))"
proof -
  have A: "\<exists>c cs w' sw'. t = c # cs \<and> (c, w', sw') \<in> set (mode_characters v)
         \<and> parse_loop v w sw OP ops (t # rest) = parse_loop v w' sw' OP ops rest
         \<and> main v e (pre @ t # post) wd = main v e (pre @ [c] # post) wd"
    if b: "begins_with_mode_character v t"
  proof -
    obtain m where m: "mode v t = Some m" using b mode_None_iff [of v t] by auto
    obtain w' sw' where ws: "m = (w', sw')" by (cases m)
    obtain c cs where t: "t = c # cs" using m by (cases t) (auto simp add: mode_def)
    have "map_of (mode_characters v) c = Some (w', sw')"
      using m ws t mode_spec [of v t] by simp
    then have mem: "(c, w', sw') \<in> set (mode_characters v)" by (rule map_of_SomeD)
    have same: "mode v t = mode v [c]" using t by (simp add: mode_def)
    have "parse_loop v w sw OP ops (t # rest) = parse_loop v w' sw' OP ops rest"
      using m ws by simp
    moreover have "mode v t \<noteq> None" using m by simp
    then have "main v e (pre @ t # post) wd = main v e (pre @ [c] # post) wd"
      using same by (intro main_mode_cong)
    ultimately show ?thesis using t mem by blast
  qed
  have B: "parse_loop v w sw OP ops (t # rest) =
          (case operation_of_token t of
             None \<Rightarrow> Inl (Invalid t)
           | Some (f, a, d) \<Rightarrow>
               parse_loop v w sw
                 (OP[ops := (OP ! ops)\<lparr>operator := f, width := w, swap := sw, address := a,
                        data := (case d of None \<Rightarrow> data (OP ! ops)
                                 | Some d' \<Rightarrow> if v = Extended then swap_data sw w d' else d')\<rparr>])
                 (Suc ops) rest)"
    if "\<not> begins_with_mode_character v t" "ops < MAXOPS" "length OP = MAXOPS"
    using that by (intro parse_loop_operation) (simp_all add: mode_None_iff)
  have C: "exit_status (main v e args wd) = 1
        \<and> (main v e args wd = (Inl TooManyOperations, wd)
           \<or> (\<exists>u\<in>set args. invalid_token v u \<and> main v e args wd = (Inl (Invalid u), wd)))"
    if h: "t \<in> set args" "invalid_token v t"
  proof -
    have "\<exists>t\<in>set args. rejected v t" using h rejected_invalid by blast
    then obtain err where err: "main v e args wd = (Inl err, wd)"
      and c: "(\<exists>pre t post. args = pre @ t # post \<and> rejected v t \<and> err = Invalid t)
              \<or> err = TooManyOperations"
      using main_rejected [of args v e wd] by blast
    have "exit_status (main v e args wd) = 1" using err by (simp add: exit_status_def)
    moreover have "main v e args wd = (Inl TooManyOperations, wd)
           \<or> (\<exists>u\<in>set args. invalid_token v u \<and> main v e args wd = (Inl (Invalid u), wd))"
      using err c unfolding rejected_invalid by auto
    ultimately show ?thesis by simp
  qed
  show ?thesis using A B C by blast
qed

lemmas eval_token = invalid_token_def begins_with_mode_character_def mode_character_set
  single_mode_token_def well_formed_operation_def operation_of_token_def numeric_literal_def
  operator_suffix_def strtoull_def convert_def isspace_def digit_value_def ULLONG_MAX_def Let_def

theorem mode_token_first_character_witness:
  "begins_with_mode_character Extended ''Wide''
   \<and> main Extended (env_of_page_size 4096) ([] @ ''Wide'' # [''0x10'']) world_zero
       = main Extended (env_of_page_size 4096) ([] @ ''W'' # [''0x10'']) world_zero
   \<and> \<not> begins_with_mode_character Extended ''5=='' \<and> 0 < MAXOPS
   \<and> length (replicate MAXOPS zero_op) = MAXOPS
   \<and> parse_loop Extended 16 0 (replicate MAXOPS zero_op) 0 [''5==''] = Inl (Invalid ''5=='')
   \<and> ''5=='' \<in> set [''h'', ''5==''] \<and> invalid_token Extended ''5==''
   \<and> exit_status (main Extended (env_of_page_size 4096) [''h'', ''5==''] world_zero) = 1"
proof -
  have h1: "begins_with_mode_character Extended ''Wide''"
    by (simp add: eval_token)
  have h2: "\<not> begins_with_mode_character Extended ''5=='' \<and> 0 < MAXOPS
     \<and> length (replicate MAXOPS zero_op) = MAXOPS"
    by (simp add: eval_token MAXOPS_def)
  have h3: "''5=='' \<in> set [''h'', ''5==''] \<and> invalid_token Extended ''5==''"
    by (simp add: eval_token)
  have o: "operation_of_token ''5=='' = None"
    by (simp add: eval_token)
  have a: "main Extended (env_of_page_size 4096) ([] @ ''Wide'' # [''0x10'']) world_zero
       = main Extended (env_of_page_size 4096) ([] @ ''W'' # [''0x10'']) world_zero"
    using mode_token_first_character [of Extended "''Wide''" 32 0 "[]" 0 "[]"
        "env_of_page_size 4096" "[]" "[''0x10'']" world_zero "[]"] h1
    by auto
  have b: "parse_loop Extended 16 0 (replicate MAXOPS zero_op) 0 [''5==''] = Inl (Invalid ''5=='')
     \<and> exit_status (main Extended (env_of_page_size 4096) [''h'', ''5==''] world_zero) = 1"
    using mode_token_first_character [of Extended "''5==''" 16 0 "replicate MAXOPS zero_op" 0 "[]"
        "env_of_page_size 4096" "[]" "[]" world_zero "[''h'', ''5=='']"] h2 h3 o
    by simp
  show ?thesis using h1 h2 h3 a b by simp
qed

text \<open>
  Claim C3 as the specification words it fails: \<^verbatim>\<open>hello\<close> is no single mode character
  and no well-formed operation token, yet the parser stores nothing for it, the operation
  after it is 16 bits wide, and the run succeeds.
\<close>

theorem mode_token_counterexample:
  "\<not> single_mode_token Basic ''hello''
   \<and> \<not> well_formed_operation ''hello''
   \<and> parse Basic [''hello'', ''0x10'']
       = Inr (\<lparr>operator = READ, width = 16, swap = 0, address = 0x10, data = 0\<rparr>
              # replicate 255 zero_op, 1)
   \<and> exit_status (main Basic (env_of_page_size 4096) [''hello'', ''0x10''] world_zero) = 0"
proof -
  have a: "\<not> single_mode_token Basic ''hello'' \<and> \<not> well_formed_operation ''hello''"
    by (simp add: eval_token)
  have p: "parse_list Basic 32 0 MAXOPS [''hello'', ''0x10'']
        = Inr [\<lparr>operator = READ, width = 16, swap = 0, address = 0x10, data = 0\<rparr>]"
    by (simp add: eval_parse)
  have b: "parse Basic [''hello'', ''0x10'']
       = Inr (\<lparr>operator = READ, width = 16, swap = 0, address = 0x10, data = 0\<rparr>
              # replicate 255 zero_op, 1)"
    by (simp only: parse_via_list p) (simp add: MAXOPS_def)
  from main_via_list [OF p]
  have "exit_status (main Basic (env_of_page_size 4096) [''hello'', ''0x10''] world_zero) = 0"
    by (simp add: eval_perform)
  then show ?thesis using a b by simp
qed

section \<open>The mapping of one operation\<close>

text \<open>
  Claim C4. For an operation with address \<open>a\<close> and width \<open>w\<close>, \<^verbatim>\<open>mmap\<close> is called with the
  offset \<open>a - pageOffset\<close> and the size \<open>2 * pageSize\<close> when \<open>pageOffset + w / 8 > pageSize\<close>
  and \<open>pageSize\<close> otherwise, where \<open>pageOffset = a mod pageSize\<close>; when the mapping is
  granted the access is made at \<open>pageOffset\<close> bytes into it, that is at the address
  \<open>a\<close>, and all its \<open>w / 8\<close> bytes lie inside the mapping; then the same size is
  unmapped. The page size is 4096 in \<^verbatim>\<open>mem.c\<close>; in the extended variant it is what
  \<^verbatim>\<open>getpagesize()\<close> returns, assumed to be a sensible page size. No \<^verbatim>\<open>int\<close> of the
  computation overflows.
\<close>

theorem map_region_covers_access:
  assumes "v = Extended \<longrightarrow> page_size_ok (getpagesize e)"
      and "width x \<in> {8, 16, 32, 64}"
  shows "\<exists>ps off sz base.
           ps = (case v of Basic \<Rightarrow> 4096 | Extended \<Rightarrow> getpagesize e)
         \<and> off = uint (address x) mod ps
         \<and> uint base = uint (address x) - off
         \<and> sz = (if off + width x div 8 > ps then 2 * ps else ps)
         \<and> 0 \<le> off \<and> off + width x div 8 \<le> sz \<and> sz < 2 ^ 31
         \<and> base + word_of_int off = address x
         \<and> (\<forall>i<nat (width x div 8).
               address x + word_of_nat i = base + word_of_nat (nat off + i)
               \<and> int (nat off + i) < sz)
         \<and> perform_op v e x wd =
             (if mmap_ok e base sz
              then (Inr (),
                    (access v x (base + word_of_int off)
                       (wd\<lparr>events := events wd @ [Mmap base sz]\<rparr>))
                    \<lparr>events := events wd @ [Mmap base sz, Munmap sz]\<rparr>)
              else (Inl (CantMap (address x)), wd\<lparr>events := events wd @ [Mmap base sz]\<rparr>))"
proof -
  let ?ps = "case v of Basic \<Rightarrow> 4096 | Extended \<Rightarrow> getpagesize e"
  let ?off = "map_offset v e x" and ?sz = "map_size v e x" and ?base = "map_base v e x"
  have r: "?off = uint (address x) mod page_size v e
       \<and> uint ?base = uint (address x) - ?off
       \<and> ?sz = (if ?off + width x div 8 > page_size v e then 2 * page_size v e else page_size v e)
       \<and> 0 \<le> ?off \<and> ?off + width x div 8 \<le> ?sz \<and> ?sz < 2 ^ 31"
    using assms by (rule map_region)
  have ps: "page_size v e = ?ps" by (simp add: page_size_def)
  have addr: "?base + word_of_int ?off = address x"
    using map_base_offset [of v e x] by (simp add: u64_of_int_def)
  have inside: "address x + word_of_nat i = ?base + word_of_nat (nat ?off + i)
               \<and> int (nat ?off + i) < ?sz" if i: "i < nat (width x div 8)" for i
  proof -
    have "word_of_nat (nat ?off) = (word_of_int ?off :: u64)"
      using r by (simp add: word_of_int_nat [symmetric] del: of_nat_nat)
    then have "?base + word_of_nat (nat ?off + i) = address x + word_of_nat i"
      using addr by (simp add: algebra_simps)
    moreover have "int (nat ?off + i) < ?sz"
      using r i by linarith
    ultimately show ?thesis by simp
  qed
  have run: "perform_op v e x wd =
             (if mmap_ok e ?base ?sz
              then (Inr (),
                    (access v x (?base + word_of_int ?off)
                       (wd\<lparr>events := events wd @ [Mmap ?base ?sz]\<rparr>))
                    \<lparr>events := events wd @ [Mmap ?base ?sz, Munmap ?sz]\<rparr>)
              else (Inl (CantMap (address x)), wd\<lparr>events := events wd @ [Mmap ?base ?sz]\<rparr>))"
    by (simp add: perform_op_def Let_def access_events u64_of_int_def)
  show ?thesis
    using r addr inside run unfolding ps by blast
qed

theorem map_region_covers_access_witness:
  "page_size_ok 4096 \<and> (32::int) \<in> {8, 16, 32, 64}
   \<and> perform_op Extended (env_of_page_size 4096)
        \<lparr>operator = READ, width = 32, swap = 0, address = 0x1FFE, data = 0\<rparr> world_zero
      = (Inr (), \<lparr>mem = zero_mem, stdout = ''0x00000000'' @ [CHR 0x0A],
                  events = [Mmap 0x1000 8192, Munmap 8192]\<rparr>)
   \<and> (\<exists>base sz. uint base = uint (0x1FFE :: u64) - 0x1FFE mod 4096 \<and> 0x1FFE mod 4096 + 32 div 8 \<le> sz
        \<and> events (snd (perform_op Extended (env_of_page_size 4096)
        \<lparr>operator = READ, width = 32, swap = 0, address = 0x1FFE, data = 0\<rparr> world_zero))
          = [Mmap base sz, Munmap sz])"
proof -
  let ?x = "\<lparr>operator = READ, width = 32, swap = 0, address = 0x1FFE, data = 0\<rparr>"
  have h: "Extended = Extended \<longrightarrow> page_size_ok (getpagesize (env_of_page_size 4096))"
    "width ?x \<in> {8, 16, 32, 64}"
    by (simp_all add: page_size_ok_def env_of_page_size_def)
  have p: "perform_op Extended (env_of_page_size 4096) ?x world_zero
      = (Inr (), \<lparr>mem = zero_mem, stdout = ''0x00000000'' @ [CHR 0x0A],
                  events = [Mmap 0x1000 8192, Munmap 8192]\<rparr>)"
    by (simp add: eval_perform)
  obtain ps off sz base where
    "ps = (case Extended of Basic \<Rightarrow> 4096 | Extended \<Rightarrow> getpagesize (env_of_page_size 4096))"
    "off = uint (address ?x) mod ps" "uint base = uint (address ?x) - off"
    "off + width ?x div 8 \<le> sz"
    "perform_op Extended (env_of_page_size 4096) ?x world_zero =
             (if mmap_ok (env_of_page_size 4096) base sz
              then (Inr (),
                    (access Extended ?x (base + word_of_int off)
                       (world_zero\<lparr>events := events world_zero @ [Mmap base sz]\<rparr>))
                    \<lparr>events := events world_zero @ [Mmap base sz, Munmap sz]\<rparr>)
              else (Inl (CantMap (address ?x)), world_zero\<lparr>events := events world_zero @ [Mmap base sz]\<rparr>))"
    using map_region_covers_access [OF h, of world_zero] by blast
  then have "uint base = uint (0x1FFE :: u64) - 0x1FFE mod 4096 \<and> 0x1FFE mod 4096 + 32 div 8 \<le> sz
        \<and> events (snd (perform_op Extended (env_of_page_size 4096) ?x world_zero))
          = [Mmap base sz, Munmap sz]"
    by (simp add: env_of_page_size_def all_mapped_def world_zero_def)
  then have "\<exists>base sz. uint base = uint (0x1FFE :: u64) - 0x1FFE mod 4096 \<and> 0x1FFE mod 4096 + 32 div 8 \<le> sz
        \<and> events (snd (perform_op Extended (env_of_page_size 4096) ?x world_zero))
          = [Mmap base sz, Munmap sz]"
    by blast
  then show ?thesis using p by (simp add: page_size_ok_def)
qed

section \<open>The value that an operation token applies\<close>

lemma not_touched: "c \<notin> touched a n \<Longrightarrow> j < n \<Longrightarrow> c \<noteq> a + word_of_nat j"
  by (auto simp add: touched_def)

lemma store_untouched:
  assumes "c \<notin> touched a (LENGTH('a) div 8)"
  shows "store m a (x :: 'a::len word) c = m c"
  using assms by (intro store_other) (auto dest: not_touched)

lemmas store_untouched_8 = store_untouched [where 'a = 8, simplified]
lemmas store_untouched_16 = store_untouched [where 'a = 16, simplified]
lemmas store_untouched_32 = store_untouched [where 'a = 32, simplified]
lemmas store_untouched_64 = store_untouched [where 'a = 64, simplified]

lemma mem_access_untouched:
  assumes "c \<notin> touched a (nat (width x div 8))"
  shows "mem (access v x a wd) c = mem wd c"
  using assms
  by (cases "operator x")
     (auto simp add: access_def Let_def store_untouched_8 store_untouched_16 store_untouched_32
        store_untouched_64)

lemma operator_suffix_kind:
  "operator_suffix s = Some (f, val) \<Longrightarrow> f \<in> {WRITE, AND_op, OR_op, XOR_op}"
  by (auto simp add: operator_suffix_def split: if_splits)

lemma operation_with_value:
  assumes "operation_of_token tok = Some (f, a, Some d)"
  shows "f \<in> {WRITE, AND_op, OR_op, XOR_op}"
proof -
  obtain s val where "operator_suffix s = Some (f, val)"
    using assms
    by (auto simp add: operation_of_token_def split: option.splits if_splits)
  then show ?thesis by (rule operator_suffix_kind)
qed

text \<open>
  Claim C5. Let an operation token of the specification carry the kind \<open>f\<close>, the address
  \<open>a\<close> and the value \<open>d\<close>, so that the kind is Write, And, Or or Xor, and let it be parsed
  in a mode of width \<open>w\<close> in 8, 16, 32, 64. When its operation is carried out, the \<open>w / 8\<close>
  bytes at \<open>a\<close> hold afterwards the old content combined with \<open>d\<close> truncated to \<open>w\<close> bits,
  which is \<open>d mod 2 ^ w\<close>; in a swapped mode of the extended variant the bytes of this
  truncated value are reversed first. Every other byte of memory is as it was, and
  nothing is printed.
\<close>

theorem applied_value_truncated:
  assumes "operation_of_token tok = Some (f, a, Some d)" and "w \<in> {8, 16, 32, 64}"
      and "\<forall>base sz. mmap_ok e base sz"
  shows "\<exists>x wd'. parse_arg v w sw slot tok = Some x
           \<and> perform_op v e x wd = (Inr (), wd')
           \<and> f \<in> {WRITE, AND_op, OR_op, XOR_op}
           \<and> peek (mem wd') a (nat (w div 8))
               = apply_operator f (peek (mem wd) a (nat (w div 8)))
                   (if v = Extended \<and> sw \<noteq> 0
                    then byte_reverse (nat (w div 8)) (trunc_bits w d)
                    else trunc_bits w d)
           \<and> (\<forall>c. c \<notin> touched a (nat (w div 8)) \<longrightarrow> mem wd' c = mem wd c)
           \<and> stdout wd' = stdout wd
           \<and> unat (trunc_bits w d) = unat d mod 2 ^ nat w"
proof -
  let ?x = "slot\<lparr>operator := f, width := w, swap := sw, address := a,
                  data := (if v = Extended then swap_data sw w d else d)\<rparr>"
  let ?wd1 = "wd\<lparr>events := events wd @ [Mmap (map_base v e ?x) (map_size v e ?x)]\<rparr>"
  have f: "f \<in> {WRITE, AND_op, OR_op, XOR_op}"
    using assms(1) by (rule operation_with_value)
  have px: "parse_arg v w sw slot tok = Some ?x"
    using assms(1) by (simp add: parse_arg_spec)
  obtain wd' where run: "perform_op v e ?x wd = (Inr (), wd')"
    using perform_op_mapped [of e v ?x wd] assms(3) by simp
  have wd': "wd' = (access v ?x a ?wd1)
                \<lparr>events := events wd @ [Mmap (map_base v e ?x) (map_size v e ?x),
                                         Munmap (map_size v e ?x)]\<rparr>"
    using perform_op_ok [OF run] by simp
  have "peek (mem (access v ?x a ?wd1)) a (nat (width ?x div 8))
        = apply_operator (operator ?x) (peek (mem ?wd1) a (nat (width ?x div 8)))
            (take_bit (nat (width ?x)) (data ?x))"
    using assms(2) f by (intro peek_access) auto
  then have pk: "peek (mem wd') a (nat (w div 8))
        = apply_operator f (peek (mem wd) a (nat (w div 8)))
            (if v = Extended \<and> sw \<noteq> 0 then byte_reverse (nat (w div 8)) (trunc_bits w d)
             else trunc_bits w d)"
    using take_bit_data [OF assms(2), of v sw d] by (simp add: wd')
  have other: "mem wd' c = mem wd c" if "c \<notin> touched a (nat (w div 8))" for c
    using mem_access_untouched [of c a ?x v ?wd1] that by (simp add: wd')
  have out: "stdout wd' = stdout wd"
    using f by (auto simp add: wd' access_other)
  show ?thesis
    using px run f pk other out unat_trunc_bits [of w d] by blast
qed

theorem applied_value_truncated_witness:
  "operation_of_token ''0x1000^=0x11223344'' = Some (XOR_op, 0x1000, Some 0x11223344)
   \<and> (16::int) \<in> {8, 16, 32, 64}
   \<and> (\<forall>base sz. mmap_ok (env_of_page_size 4096) base sz)
   \<and> parse_arg Extended 16 1 zero_op ''0x1000^=0x11223344''
       = Some \<lparr>operator = XOR_op, width = 16, swap = 1, address = 0x1000, data = 0x4433\<rparr>
   \<and> mem (snd (perform_op Extended (env_of_page_size 4096)
         \<lparr>operator = XOR_op, width = 16, swap = 1, address = 0x1000, data = 0x4433\<rparr>
         \<lparr>mem = (\<lambda>a. 0xFF), stdout = [], events = []\<rparr>)) 0x1000 = 0xCC
   \<and> mem (snd (perform_op Extended (env_of_page_size 4096)
         \<lparr>operator = XOR_op, width = 16, swap = 1, address = 0x1000, data = 0x4433\<rparr>
         \<lparr>mem = (\<lambda>a. 0xFF), stdout = [], events = []\<rparr>)) 0x1001 = 0xBB
   \<and> mem (snd (perform_op Extended (env_of_page_size 4096)
         \<lparr>operator = XOR_op, width = 16, swap = 1, address = 0x1000, data = 0x4433\<rparr>
         \<lparr>mem = (\<lambda>a. 0xFF), stdout = [], events = []\<rparr>)) 0x1002 = 0xFF
   \<and> (\<exists>x wd'. parse_arg Extended 16 1 zero_op ''0x1000^=0x11223344'' = Some x
         \<and> perform_op Extended (env_of_page_size 4096) x
              \<lparr>mem = (\<lambda>a. 0xFF), stdout = [], events = []\<rparr> = (Inr (), wd')
         \<and> peek (mem wd') 0x1000 2
             = apply_operator XOR_op (peek (\<lambda>a. 0xFF) 0x1000 2)
                 (byte_reverse 2 (trunc_bits 16 0x11223344))
         \<and> stdout wd' = [])"
proof -
  let ?wd = "\<lparr>mem = (\<lambda>a. 0xFF), stdout = [], events = []\<rparr>"
  have h: "operation_of_token ''0x1000^=0x11223344'' = Some (XOR_op, 0x1000, Some 0x11223344)"
    "(16::int) \<in> {8, 16, 32, 64}" "\<forall>base sz. mmap_ok (env_of_page_size 4096) base sz"
    by (simp_all add: eval_token env_of_page_size_def all_mapped_def)
  have p: "parse_arg Extended 16 1 zero_op ''0x1000^=0x11223344''
       = Some \<lparr>operator = XOR_op, width = 16, swap = 1, address = 0x1000, data = 0x4433\<rparr>"
    by (simp add: eval_parse bswap_def to_bytes_numeral)
  have m: "mem (snd (perform_op Extended (env_of_page_size 4096)
         \<lparr>operator = XOR_op, width = 16, swap = 1, address = 0x1000, data = 0x4433\<rparr> ?wd)) 0x1000 = 0xCC"
    "mem (snd (perform_op Extended (env_of_page_size 4096)
         \<lparr>operator = XOR_op, width = 16, swap = 1, address = 0x1000, data = 0x4433\<rparr> ?wd)) 0x1001 = 0xBB"
    "mem (snd (perform_op Extended (env_of_page_size 4096)
         \<lparr>operator = XOR_op, width = 16, swap = 1, address = 0x1000, data = 0x4433\<rparr> ?wd)) 0x1002 = 0xFF"
    by (simp_all add: eval_perform)
  obtain x wd' where "parse_arg Extended 16 1 zero_op ''0x1000^=0x11223344'' = Some x"
    "perform_op Extended (env_of_page_size 4096) x ?wd = (Inr (), wd')"
    "peek (mem wd') 0x1000 (nat (16 div 8))
       = apply_operator XOR_op (peek (mem ?wd) 0x1000 (nat (16 div 8)))
           (if Extended = Extended \<and> (1::int) \<noteq> 0
            then byte_reverse (nat (16 div 8)) (trunc_bits 16 0x11223344)
            else trunc_bits 16 0x11223344)"
    "stdout wd' = stdout ?wd"
    using applied_value_truncated [OF h, of Extended 1 zero_op ?wd] by blast
  then have "\<exists>x wd'. parse_arg Extended 16 1 zero_op ''0x1000^=0x11223344'' = Some x
         \<and> perform_op Extended (env_of_page_size 4096) x ?wd = (Inr (), wd')
         \<and> peek (mem wd') 0x1000 2
             = apply_operator XOR_op (peek (\<lambda>a. 0xFF) 0x1000 2)
                 (byte_reverse 2 (trunc_bits 16 0x11223344))
         \<and> stdout wd' = []"
    by simp
  then show ?thesis using h p m by blast
qed

section \<open>The output of a run\<close>

lemma parse_list_ops:
  assumes "parse_list v w sw cap args = Inr xs" "w \<in> {8, 16, 32, 64}" "i < length xs"
  shows "width (xs ! i) \<in> {8, 16, 32, 64}
       \<and> (\<exists>f a d. operation_of_token (op_tokens v args ! i) = Some (f, a, d)
              \<and> operator (xs ! i) = f \<and> address (xs ! i) = a)"
  using assms
proof (induction args arbitrary: w sw cap xs i)
  case Nil
  then show ?case by simp
next
  case (Cons arg args)
  show ?case
  proof (cases "mode v arg")
    case (Some m)
    obtain w' sw' where m: "m = (w', sw')" by (cases m)
    have w': "w' \<in> {8, 16, 32, 64}" using Some m by (intro mode_width) simp
    have "parse_list v w' sw' cap args = Inr xs" using Cons.prems(1) Some m by simp
    then have "width (xs ! i) \<in> {8, 16, 32, 64}
       \<and> (\<exists>f a d. operation_of_token (op_tokens v args ! i) = Some (f, a, d)
              \<and> operator (xs ! i) = f \<and> address (xs ! i) = a)"
      using w' Cons.prems(3) by (rule Cons.IH)
    then show ?thesis using Some by (simp add: op_tokens_def)
  next
    case None
    obtain x ys where x: "parse_arg v w sw zero_op arg = Some x"
      and ys: "parse_list v w sw (cap - 1) args = Inr ys" and xs: "xs = x # ys"
      using Cons.prems(1) None by (auto split: if_splits option.splits sum.splits)
    have o: "op_tokens v (arg # args) = arg # op_tokens v args"
      using None by (simp add: op_tokens_def)
    show ?thesis
    proof (cases i)
      case 0
      have "width x = w" using x parse_arg_mode by blast
      moreover obtain f a d where "operation_of_token arg = Some (f, a, d)"
        "operator x = f" "address x = a"
        using x by (auto simp add: parse_arg_spec split: option.splits)
      ultimately show ?thesis using 0 xs o Cons.prems(2) by simp
    next
      case (Suc j)
      then have "j < length ys" using Cons.prems(3) xs by simp
      with ys Cons.prems(2) have "width (ys ! j) \<in> {8, 16, 32, 64}
       \<and> (\<exists>f a d. operation_of_token (op_tokens v args ! j) = Some (f, a, d)
              \<and> operator (ys ! j) = f \<and> address (ys ! j) = a)"
        by (rule Cons.IH)
      then show ?thesis using Suc xs o by simp
    qed
  qed
qed

text \<open>
  Claim C9. However a run of the program ends, it has added to standard output one part
  per operation it carried out, in the order of the operation tokens on the command line,
  and a run that ends with exit status 0 has carried out all of them. The part that belongs
  to the \<open>i\<close>-th operation token is empty unless the token is a Read; for a Read of width
  \<open>w\<close> it is one line: \<^verbatim>\<open>0x\<close>, then exactly \<open>w / 4\<close> upper-case hexadecimal digits that
  denote the value at the address of the token at that moment (bytes reversed in a swapped
  mode), then a newline.
\<close>

theorem read_output_format:
  assumes "main v e args wd = (r, wd')"
  shows "\<exists>parts. stdout wd' = stdout wd @ concat parts
           \<and> length parts \<le> length (operation_tokens v args)
           \<and> (r = Inr () \<longrightarrow> length parts = length (operation_tokens v args))
           \<and> (\<forall>i<length parts. \<exists>OP n f a d.
                 parse v args = Inr (OP, n)
               \<and> operation_of_token (operation_tokens v args ! i) = Some (f, a, d)
               \<and> operator (OP ! i) = f \<and> address (OP ! i) = a
               \<and> width (OP ! i) \<in> {8, 16, 32, 64}
               \<and> (f \<noteq> READ \<longrightarrow> parts ! i = [])
               \<and> (f = READ \<longrightarrow>
                    (\<exists>ds. parts ! i = ''0x'' @ ds @ [CHR 0x0A]
                       \<and> length ds = nat (width (OP ! i) div 4)
                       \<and> set ds \<subseteq> set ''0123456789ABCDEF''
                       \<and> hex_value ds
                          = read_value v (OP ! i)
                              (mem (snd (perform v e (take i OP)
                                           (wd\<lparr>events := events wd @ [Open]\<rparr>)))))))"
proof -
  let ?P = "\<lambda>parts. stdout wd' = stdout wd @ concat parts
           \<and> length parts \<le> length (operation_tokens v args)
           \<and> (r = Inr () \<longrightarrow> length parts = length (operation_tokens v args))
           \<and> (\<forall>i<length parts. \<exists>OP n f a d.
                 parse v args = Inr (OP, n)
               \<and> operation_of_token (operation_tokens v args ! i) = Some (f, a, d)
               \<and> operator (OP ! i) = f \<and> address (OP ! i) = a
               \<and> width (OP ! i) \<in> {8, 16, 32, 64}
               \<and> (f \<noteq> READ \<longrightarrow> parts ! i = [])
               \<and> (f = READ \<longrightarrow>
                    (\<exists>ds. parts ! i = ''0x'' @ ds @ [CHR 0x0A]
                       \<and> length ds = nat (width (OP ! i) div 4)
                       \<and> set ds \<subseteq> set ''0123456789ABCDEF''
                       \<and> hex_value ds
                          = read_value v (OP ! i)
                              (mem (snd (perform v e (take i OP)
                                           (wd\<lparr>events := events wd @ [Open]\<rparr>)))))))"
  let ?wd1 = "wd\<lparr>events := events wd @ [Open]\<rparr>"
  have none: "?P []" if "stdout wd' = stdout wd" "\<forall>u. r \<noteq> Inr u"
    using that by simp
  show ?thesis
  proof (cases "parse_list v 32 0 MAXOPS args")
    case (Inl err)
    then have "main v e args wd = (Inl err, wd)" by (rule main_parse_error)
    then have "?P []" using assms by (intro none) auto
    then show ?thesis by blast
  next
    case (Inr xs)
    let ?OP = "xs @ replicate (MAXOPS - length xs) zero_op"
    have p: "parse v args = Inr (?OP, length xs)"
      using Inr by (simp add: parse_via_list)
    have len: "length xs = length (operation_tokens v args)"
      using parse_list_length [OF Inr] by (simp add: operation_tokens_eq)
    note m = main_via_list [OF Inr, of e wd]
    show ?thesis
    proof (cases "xs = [] \<or> \<not> open_ok e")
      case True
      then have "stdout wd' = stdout wd \<and> (\<forall>u. r \<noteq> Inr u)"
        using m assms by (auto split: if_splits)
      then have "?P []" by (intro none) auto
      then show ?thesis by blast
    next
      case False
      then have run: "perform v e xs ?wd1 = (r, wd')"
        using m assms by simp
      have ws: "\<forall>x\<in>set xs. width x \<in> {8, 16, 32, 64}"
      proof
        fix x assume "x \<in> set xs"
        then obtain i where i: "i < length xs" "xs ! i = x" by (auto simp add: in_set_conv_nth)
        then show "width x \<in> {8, 16, 32, 64}"
          using parse_list_ops [OF Inr _ i(1)] by auto
      qed
      obtain parts where parts: "stdout wd' = stdout ?wd1 @ concat parts"
        "length parts \<le> length xs" "r = Inr () \<longrightarrow> length parts = length xs"
        and each: "\<forall>i<length parts.
              (operator (xs ! i) \<noteq> READ \<longrightarrow> parts ! i = [])
            \<and> (operator (xs ! i) = READ \<longrightarrow>
                 (\<exists>ds. parts ! i = ''0x'' @ ds @ [CHR 0x0A]
                    \<and> length ds = nat (width (xs ! i) div 4)
                    \<and> set ds \<subseteq> set ''0123456789ABCDEF''
                    \<and> hex_value ds
                       = read_value v (xs ! i) (mem (snd (perform v e (take i xs) ?wd1)))))"
        using perform_output_format [OF run ws] by blast
      have "\<exists>OP n f a d.
                 parse v args = Inr (OP, n)
               \<and> operation_of_token (operation_tokens v args ! i) = Some (f, a, d)
               \<and> operator (OP ! i) = f \<and> address (OP ! i) = a
               \<and> width (OP ! i) \<in> {8, 16, 32, 64}
               \<and> (f \<noteq> READ \<longrightarrow> parts ! i = [])
               \<and> (f = READ \<longrightarrow>
                    (\<exists>ds. parts ! i = ''0x'' @ ds @ [CHR 0x0A]
                       \<and> length ds = nat (width (OP ! i) div 4)
                       \<and> set ds \<subseteq> set ''0123456789ABCDEF''
                       \<and> hex_value ds
                          = read_value v (OP ! i) (mem (snd (perform v e (take i OP) ?wd1)))))"
        if i: "i < length parts" for i
      proof -
        have il: "i < length xs" using i parts(2) by simp
        have nth: "?OP ! i = xs ! i" using il by (simp add: nth_append)
        have tk: "take i ?OP = take i xs" using il by simp
        obtain f a d where tok: "operation_of_token (op_tokens v args ! i) = Some (f, a, d)"
          "operator (xs ! i) = f" "address (xs ! i) = a" and w: "width (xs ! i) \<in> {8, 16, 32, 64}"
          using parse_list_ops [OF Inr _ il] by auto
        have "parse v args = Inr (?OP, length xs)
               \<and> operation_of_token (operation_tokens v args ! i) = Some (f, a, d)
               \<and> operator (?OP ! i) = f \<and> address (?OP ! i) = a
               \<and> width (?OP ! i) \<in> {8, 16, 32, 64}
               \<and> (f \<noteq> READ \<longrightarrow> parts ! i = [])
               \<and> (f = READ \<longrightarrow>
                    (\<exists>ds. parts ! i = ''0x'' @ ds @ [CHR 0x0A]
                       \<and> length ds = nat (width (?OP ! i) div 4)
                       \<and> set ds \<subseteq> set ''0123456789ABCDEF''
                       \<and> hex_value ds
                          = read_value v (?OP ! i) (mem (snd (perform v e (take i ?OP) ?wd1)))))"
          unfolding nth tk operation_tokens_eq using p tok w each i by auto
        then show ?thesis by blast
      qed
      then have "?P parts" using parts len by simp
      then show ?thesis by blast
    qed
  qed
qed

theorem read_output_format_witness:
  "fst (main Basic (env_of_page_size 4096)
          [''h'', ''0x100=0xBEEF'', ''0x100'', ''b'', ''0x101''] world_zero) = Inr ()
   \<and> stdout (snd (main Basic (env_of_page_size 4096)
          [''h'', ''0x100=0xBEEF'', ''0x100'', ''b'', ''0x101''] world_zero))
       = ''0xBEEF'' @ [CHR 0x0A] @ ''0xBE'' @ [CHR 0x0A]
   \<and> operation_tokens Basic [''h'', ''0x100=0xBEEF'', ''0x100'', ''b'', ''0x101'']
       = [''0x100=0xBEEF'', ''0x100'', ''0x101'']
   \<and> (\<exists>parts. ''0xBEEF'' @ [CHR 0x0A] @ ''0xBE'' @ [CHR 0x0A] = concat parts \<and> length parts = 3)"
proof -
  let ?args = "[''h'', ''0x100=0xBEEF'', ''0x100'', ''b'', ''0x101'']"
  let ?r = "main Basic (env_of_page_size 4096) ?args world_zero"
  have p: "parse_list Basic 32 0 MAXOPS ?args
        = Inr [\<lparr>operator = WRITE, width = 16, swap = 0, address = 0x100, data = 0xBEEF\<rparr>,
               \<lparr>operator = READ, width = 16, swap = 0, address = 0x100, data = 0\<rparr>,
               \<lparr>operator = READ, width = 8, swap = 0, address = 0x101, data = 0\<rparr>]"
    by (simp add: eval_parse)
  have f: "fst ?r = Inr ()"
    using main_via_list [OF p, of "env_of_page_size 4096" world_zero] by (simp add: eval_perform)
  have s: "stdout (snd ?r) = ''0xBEEF'' @ [CHR 0x0A] @ ''0xBE'' @ [CHR 0x0A]"
    using main_via_list [OF p, of "env_of_page_size 4096" world_zero] by (simp add: eval_perform)
  have t: "operation_tokens Basic ?args = [''0x100=0xBEEF'', ''0x100'', ''0x101'']"
    by (simp add: operation_tokens_def begins_with_mode_character_def mode_character_set)
  have run: "?r = (fst ?r, snd ?r)" by simp
  obtain parts where a: "stdout (snd ?r) = stdout world_zero @ concat parts"
    and b: "fst ?r = Inr () \<longrightarrow> length parts = length (operation_tokens Basic ?args)"
    using read_output_format [OF run] by blast
  have "''0xBEEF'' @ [CHR 0x0A] @ ''0xBE'' @ [CHR 0x0A] = concat parts"
    using a s by (simp add: world_zero_def)
  moreover have "length parts = 3"
    using b f t by simp
  ultimately have "\<exists>parts. ''0xBEEF'' @ [CHR 0x0A] @ ''0xBE'' @ [CHR 0x0A] = concat parts \<and> length parts = 3"
    by blast
  then show ?thesis using f s t by blast
qed

end
